theory Spec2Isabelle
  imports Complex_Main "HOL-Library.Word" "HOL-Library.Sublist"
begin

unbundle bit_operations_syntax

section \<open>Python text\<close>

text \<open>
  A Python \<open>str\<close> is a sequence of Unicode code points; a \<open>bytes\<close> value is a
  sequence of octets. String literals of the source are written \<open>u ''...''\<close>.
\<close>

type_synonym pystr = "nat list"
type_synonym byte = "8 word"

definition u :: "string \<Rightarrow> pystr" where
  "u s = map of_char s"

text \<open>
  \<open>str.isspace\<close> per code point, as \<open>str.strip()\<close> uses it: the code points of
  bidirectional class WS, B or S, or of category Zs.
\<close>

definition py_isspace :: "nat \<Rightarrow> bool" where
  "py_isspace c \<longleftrightarrow>
     (9 \<le> c \<and> c \<le> 13) \<or> (28 \<le> c \<and> c \<le> 32) \<or> c = 133 \<or> c = 160 \<or> c = 5760
     \<or> (8192 \<le> c \<and> c \<le> 8202) \<or> c = 8232 \<or> c = 8233 \<or> c = 8239 \<or> c = 8287
     \<or> c = 12288"

definition py_strip :: "pystr \<Rightarrow> pystr" where
  "py_strip s = rev (dropWhile py_isspace (rev (dropWhile py_isspace s)))"

definition ascii_lower :: "nat \<Rightarrow> nat" where
  "ascii_lower c = (if 65 \<le> c \<and> c \<le> 90 then c + 32 else c)"

text \<open>
  \<open>str.lower()\<close>: on a string of ASCII code points it maps \<open>A..Z\<close> to \<open>a..z\<close>. On
  any other string it follows the case mappings of the Unicode database, which is
  not part of the repository: that mapping is the parameter \<open>ucd\<close>.
\<close>

definition py_lower :: "(pystr \<Rightarrow> pystr) \<Rightarrow> pystr \<Rightarrow> pystr" where
  "py_lower ucd s = (if list_all (\<lambda>c. c < 128) s then map ascii_lower s else ucd s)"

text \<open>\<open>s.replace("\r\n", "\n")\<close>: left to right, without overlap.\<close>

fun replace_crlf :: "pystr \<Rightarrow> pystr" where
  "replace_crlf (c # d # s) =
     (if c = 13 \<and> d = 10 then 10 # replace_crlf s else c # replace_crlf (d # s))"
| "replace_crlf s = s"

text \<open>\<open>s.find(ch)\<close> for a one-character needle: the first index, or \<open>-1\<close>.\<close>

fun py_find :: "pystr \<Rightarrow> nat \<Rightarrow> int" where
  "py_find [] ch = -1"
| "py_find (c # s) ch =
     (if c = ch then 0 else (let r = py_find s ch in if r = -1 then -1 else r + 1))"

text \<open>
  \<open>chunk.decode("utf-8", errors="ignore")\<close>: CPython's UTF-8 decoder with the
  \<open>ignore\<close> handler. A byte that cannot start a sequence is dropped; a lead byte
  whose continuation is wrong is dropped together with the continuation bytes
  accepted so far, and decoding resumes at the offending byte; a sequence cut off
  by the end of the input is dropped whole. Overlong forms, surrogates and code
  points above \<open>0x10FFFF\<close> are rejected at the second byte.
\<close>

definition is_cont :: "byte \<Rightarrow> bool" where
  "is_cont b \<longleftrightarrow> 0x80 \<le> b \<and> b < 0xC0"

fun utf8_decode_ignore :: "byte list \<Rightarrow> pystr" where
  "utf8_decode_ignore [] = []"
| "utf8_decode_ignore (ch # s) =
     (if ch < 0x80 then unat ch # utf8_decode_ignore s
      else if ch < 0xC2 then utf8_decode_ignore s
      else if ch < 0xE0 then
        (case s of
           [] \<Rightarrow> []
         | ch2 # s2 \<Rightarrow>
             if is_cont ch2
             then (unat (ch AND 0x1F) * 64 + unat (ch2 AND 0x3F)) # utf8_decode_ignore s2
             else utf8_decode_ignore s)
      else if ch < 0xF0 then
        (case s of
           [] \<Rightarrow> []
         | ch2 # s2 \<Rightarrow>
             if \<not> is_cont ch2 \<or> (if ch2 < 0xA0 then ch = 0xE0 else ch = 0xED)
             then utf8_decode_ignore s
             else (case s2 of
                     [] \<Rightarrow> []
                   | ch3 # s3 \<Rightarrow>
                       if is_cont ch3
                       then (unat (ch AND 0x0F) * 4096 + unat (ch2 AND 0x3F) * 64
                             + unat (ch3 AND 0x3F)) # utf8_decode_ignore s3
                       else utf8_decode_ignore s2))
      else if ch < 0xF5 then
        (case s of
           [] \<Rightarrow> []
         | ch2 # s2 \<Rightarrow>
             if \<not> is_cont ch2 \<or> (if ch2 < 0x90 then ch = 0xF0 else ch = 0xF4)
             then utf8_decode_ignore s
             else (case s2 of
                     [] \<Rightarrow> []
                   | ch3 # s3 \<Rightarrow>
                       if \<not> is_cont ch3 then utf8_decode_ignore s2
                       else (case s3 of
                               [] \<Rightarrow> []
                             | ch4 # s4 \<Rightarrow>
                                 if is_cont ch4
                                 then (unat (ch AND 0x07) * 262144 + unat (ch2 AND 0x3F) * 4096
                                       + unat (ch3 AND 0x3F) * 64 + unat (ch4 AND 0x3F))
                                      # utf8_decode_ignore s4
                                 else utf8_decode_ignore s3)))
      else utf8_decode_ignore s)"

text \<open>
  Python's floats are idealised as real numbers. \<open>round(x, ndigits)\<close> on a
  binary double is not the rounding of the real number it stands for, so it is not
  defined here: it is a parameter of the environment (\<open>rounding\<close> below).
  \<open>ideal_round\<close>, rounding to the nearest with ties to the even neighbour, is the
  rounding of the sample environment only.
\<close>

definition round_half_even :: "real \<Rightarrow> int" where
  "round_half_even x =
     (let f = \<lfloor>x\<rfloor>; d = x - of_int f
      in if d < 1 / 2 then f else if 1 / 2 < d then f + 1 else if even f then f else f + 1)"

definition ideal_round :: "real \<Rightarrow> nat \<Rightarrow> real" where
  "ideal_round x nd = of_int (round_half_even (x * 10 ^ nd)) / 10 ^ nd"

section \<open>Hardware layer\<close>

text \<open>
  The driver object \<open>px\<close> is outside the repository. It is modelled as a recorder:
  every call made on it is appended to the trace and returns normally. \<open>px = None\<close>
  (the import failed) is \<open>px_present = False\<close>.
\<close>

datatype hw_call = Px_forward int | Px_backward int | Px_stop | Px_set_dir_servo_angle int

text \<open>The lines written to standard output, by the \<open>print\<close> that writes them.\<close>

datatype log_line =
    Log_px_error
  | Log_connected nat
  | Log_rx nat pystr
  | Log_ack_err nat
  | Log_cmd pystr
  | Log_warn pystr
  | Log_disconnected nat
  | Log_send_err nat

record telemetry =
  direction :: pystr
  speed_mps :: real
  distance_m :: real
  tempC :: real
  battery :: int
  moving :: pystr
  steer :: pystr

text \<open>What \<open>sendall\<close> is asked to write: an ACK line or a serialized telemetry state.\<close>

datatype payload = Ack pystr | Telemetry_line telemetry

datatype event =
    Px hw_call
  | Print log_line
  | Sendall nat payload bool
  | Sock_close nat

text \<open>
  The environment: the Unicode case mapping, \<open>round\<close> on floats, the wall clock
  (\<open>time.time()\<close>), the thermal sensor file (its integer content, \<open>None\<close> when reading or parsing fails) and
  the outcome of socket writes (\<open>True\<close>: \<open>sendall\<close> raises). The clock, the sensor and
  the write outcomes are indexed by the number of environment calls made so far.
\<close>

record environment =
  ucd_lower :: "pystr \<Rightarrow> pystr"
  rounding :: "real \<Rightarrow> nat \<Rightarrow> real"
  clock :: "nat \<Rightarrow> real"
  thermal :: "nat \<Rightarrow> int option"
  send_fails :: "nat \<Rightarrow> bool"

record conn_state =
  sock :: nat
  addr :: nat
  buf_in :: pystr
  last_push :: real
  closed :: bool

text \<open>
  The module's globals: \<open>px\<close>, \<open>_telem\<close>, \<open>_last_telem_time\<close> and the selector
  \<open>sel\<close> (the registered client sockets with their \<open>ConnState\<close>, in registration
  order), with the environment, the count of environment calls and the trace of
  effects.
\<close>

record world =
  px_present :: bool
  telem :: telemetry
  last_telem_time :: real
  sel_map :: "(nat \<times> conn_state) list"
  env :: environment
  steps :: nat
  trace :: "event list"

definition CRUISE_SPEED :: int where
  "CRUISE_SPEED = 80"

definition DIR_MAX_ANGLE :: int where
  "DIR_MAX_ANGLE = 22"

definition emit :: "event \<Rightarrow> world \<Rightarrow> world" where
  "emit e w = w\<lparr>trace := trace w @ [e]\<rparr>"

definition lower :: "world \<Rightarrow> pystr \<Rightarrow> pystr" where
  "lower w s = py_lower (ucd_lower (env w)) s"

definition set_motion :: "world \<Rightarrow> pystr \<Rightarrow> world" where
  "set_motion w motion =
     (if \<not> px_present w then w
      else let m = lower w motion in
        if m = u ''forward'' then emit (Px (Px_forward CRUISE_SPEED)) w
        else if m = u ''back'' then emit (Px (Px_backward CRUISE_SPEED)) w
        else if m = u ''stop'' then emit (Px Px_stop) w
        else emit (Px Px_stop) w)"

definition set_steer :: "world \<Rightarrow> pystr \<Rightarrow> world" where
  "set_steer w d0 =
     (if \<not> px_present w then w
      else let d = lower w d0 in
        if d = u ''left'' then emit (Px (Px_set_dir_servo_angle (- DIR_MAX_ANGLE))) w
        else if d = u ''right'' then emit (Px (Px_set_dir_servo_angle DIR_MAX_ANGLE)) w
        else if d = u ''center'' then emit (Px (Px_set_dir_servo_angle 0)) w
        else w)"

definition hw_safe_stop :: "world \<Rightarrow> world" where
  "hw_safe_stop w = set_steer (set_motion w (u ''stop'')) (u ''center'')"

section \<open>Command dispatch\<close>

definition apply_cmd :: "world \<Rightarrow> pystr \<Rightarrow> world" where
  "apply_cmd w0 cmd =
     (let c = lower w0 (py_strip cmd);
          w = emit (Print (Log_cmd c)) w0
      in
        if c = u ''forward'' then
          (let w1 = set_motion w (u ''forward'') in
           w1\<lparr>telem := (telem w1)\<lparr>direction := u ''forward'', moving := u ''forward'',
                                   speed_mps := 0.55\<rparr>\<rparr>)
        else if c = u ''back'' then
          (let w1 = set_motion w (u ''back'') in
           w1\<lparr>telem := (telem w1)\<lparr>direction := u ''back'', moving := u ''back'',
                                   speed_mps := 0.55\<rparr>\<rparr>)
        else if c = u ''stop'' then
          (let w1 = set_motion w (u ''stop'') in
           w1\<lparr>telem := (telem w1)\<lparr>direction := u ''stop'', moving := u ''stop'',
                                   speed_mps := 0\<rparr>\<rparr>)
        else if c = u ''left'' then
          (let w1 = set_steer w (u ''left'') in
           w1\<lparr>telem := (telem w1)\<lparr>steer := u ''left''\<rparr>\<rparr>)
        else if c = u ''right'' then
          (let w1 = set_steer w (u ''right'') in
           w1\<lparr>telem := (telem w1)\<lparr>steer := u ''right''\<rparr>\<rparr>)
        else if c = u ''center'' then
          (let w1 = set_steer w (u ''center'') in
           w1\<lparr>telem := (telem w1)\<lparr>steer := u ''center''\<rparr>\<rparr>)
        else if c = u ''resetodo'' then
          w\<lparr>telem := (telem w)\<lparr>distance_m := 0\<rparr>\<rparr>
        else emit (Print (Log_warn c)) w)"

section \<open>Telemetry\<close>

definition time_time :: "world \<Rightarrow> real \<times> world" where
  "time_time w = (clock (env w) (steps w), w\<lparr>steps := Suc (steps w)\<rparr>)"

definition cpu_temp_c :: "world \<Rightarrow> real \<times> world" where
  "cpu_temp_c w =
     ((case thermal (env w) (steps w) of
         None \<Rightarrow> 0
       | Some m \<Rightarrow> rounding (env w) (of_int m / 1000) 1),
      w\<lparr>steps := Suc (steps w)\<rparr>)"

text \<open>
  \<open>telemetry_tick\<close> returns \<open>json.dumps(_telem)\<close>; the serialized text is
  represented by the telemetry record it serializes.
\<close>

definition telemetry_tick :: "world \<Rightarrow> telemetry \<times> world" where
  "telemetry_tick w0 =
     (let (now, w1) = time_time w0;
          dt = now - last_telem_time w1;
          w2 = w1\<lparr>last_telem_time := now\<rparr>;
          speed = speed_mps (telem w2);
          w3 = w2\<lparr>telem := (telem w2)\<lparr>distance_m :=
                  rounding (env w2) (distance_m (telem w2) + speed * dt) 2\<rparr>\<rparr>;
          (t, w4) = cpu_temp_c w3;
          w5 = w4\<lparr>telem := (telem w4)\<lparr>tempC := t\<rparr>\<rparr>
      in (telem w5, w5))"

section \<open>Reactor\<close>

definition ConnState :: "nat \<Rightarrow> nat \<Rightarrow> conn_state" where
  "ConnState s a = \<lparr>sock = s, addr = a, buf_in = [], last_push = 0, closed = False\<rparr>"

text \<open>
  \<open>accept\<close>: the environment supplies the accepted socket and the peer address.
\<close>

definition accept :: "world \<Rightarrow> nat \<Rightarrow> nat \<Rightarrow> world" where
  "accept w conn a =
     (let w1 = emit (Print (Log_connected a)) w;
          state = ConnState conn a
      in w1\<lparr>sel_map := sel_map w1 @ [(conn, state)]\<rparr>)"

text \<open>\<open>sock.sendall(data)\<close>; the first component tells whether it raised.\<close>

definition sendall :: "world \<Rightarrow> nat \<Rightarrow> payload \<Rightarrow> bool \<times> world" where
  "sendall w s p =
     (let failed = send_fails (env w) (steps w)
      in (failed, (emit (Sendall s p (\<not> failed)) w)\<lparr>steps := Suc (steps w)\<rparr>))"

definition close_conn :: "world \<Rightarrow> conn_state \<Rightarrow> world \<times> conn_state" where
  "close_conn w state =
     (if closed state then (w, state)
      else
        let state1 = state\<lparr>closed := True\<rparr>;
            w1 = w\<lparr>sel_map := filter (\<lambda>(fd, _). fd \<noteq> sock state) (sel_map w)\<rparr>;
            w2 = emit (Sock_close (sock state)) w1
        in (hw_safe_stop w2, state1))"

text \<open>The \<open>try\<close> block around the ACK write in \<open>service\<close>.\<close>

definition send_ack :: "world \<Rightarrow> conn_state \<Rightarrow> pystr \<Rightarrow> world" where
  "send_ack w state cmd =
     (let (failed, w1) = sendall w (sock state) (Ack cmd)
      in if failed then emit (Print (Log_ack_err (addr state))) w1 else w1)"

text \<open>The \<open>while True\<close> loop of \<open>service\<close>.\<close>

function service_loop :: "world \<Rightarrow> conn_state \<Rightarrow> world \<times> conn_state" where
  "service_loop w state =
     (if py_find (buf_in state) 10 = -1 then (w, state)
      else if py_strip (take (nat (py_find (buf_in state) 10)) (buf_in state)) = []
      then service_loop w
             (state\<lparr>buf_in := drop (nat (py_find (buf_in state) 10) + 1) (buf_in state)\<rparr>)
      else service_loop
             (apply_cmd
                (send_ack w
                   (state\<lparr>buf_in := drop (nat (py_find (buf_in state) 10) + 1) (buf_in state)\<rparr>)
                   (py_strip (take (nat (py_find (buf_in state) 10)) (buf_in state))))
                (py_strip (take (nat (py_find (buf_in state) 10)) (buf_in state))))
             (state\<lparr>buf_in := drop (nat (py_find (buf_in state) 10) + 1) (buf_in state)\<rparr>))"
  by pat_completeness auto
termination
proof (relation "measure (\<lambda>(w, state). length (buf_in state))")
  fix state :: conn_state
  assume "py_find (buf_in state) 10 \<noteq> - 1"
  then have "buf_in state \<noteq> []"
    by auto
  then have "length (buf_in state) - Suc (nat (py_find (buf_in state) 10)) < length (buf_in state)"
    by simp
  then show
    "((w, state\<lparr>buf_in := drop (nat (py_find (buf_in state) 10) + 1) (buf_in state)\<rparr>),
      (w, state)) \<in> measure (\<lambda>(w, state). length (buf_in state))"
    and "((apply_cmd
            (send_ack w
               (state\<lparr>buf_in := drop (nat (py_find (buf_in state) 10) + 1) (buf_in state)\<rparr>)
               (py_strip (take (nat (py_find (buf_in state) 10)) (buf_in state))))
            (py_strip (take (nat (py_find (buf_in state) 10)) (buf_in state))),
          state\<lparr>buf_in := drop (nat (py_find (buf_in state) 10) + 1) (buf_in state)\<rparr>),
         (w, state)) \<in> measure (\<lambda>(w, state). length (buf_in state))"
    for w
    by simp_all
qed simp

declare service_loop.simps [simp del]

text \<open>
  What \<open>sock.recv(4096)\<close> did: returned bytes (none when the peer has closed),
  raised \<open>BlockingIOError\<close> or \<open>InterruptedError\<close>, or raised another exception.
\<close>

datatype recv_result = Recv_data "byte list" | Recv_would_block | Recv_error

definition service :: "world \<Rightarrow> conn_state \<Rightarrow> recv_result \<Rightarrow> world \<times> conn_state" where
  "service w state r =
     (case r of
        Recv_would_block \<Rightarrow> (w, state)
      | Recv_error \<Rightarrow> close_conn (emit (Print (Log_disconnected (addr state))) w) state
      | Recv_data chunk \<Rightarrow>
          if chunk = [] then close_conn (emit (Print (Log_disconnected (addr state))) w) state
          else
            let s = utf8_decode_ignore chunk;
                w1 = emit (Print (Log_rx (addr state) s)) w
            in service_loop w1 (state\<lparr>buf_in := buf_in state @ replace_crlf s\<rparr>))"

datatype py_error = ZeroDivisionError

definition push_telem_if_due ::
    "world \<Rightarrow> conn_state \<Rightarrow> real \<Rightarrow> py_error + world \<times> conn_state" where
  "push_telem_if_due w0 state hz =
     (let (now, w1) = time_time w0
      in if hz = 0 then Inl ZeroDivisionError
         else if now - last_push state \<ge> 1 / hz then
           (let (payload, w2) = telemetry_tick w1;
                (failed, w3) = sendall w2 (sock state) (Telemetry_line payload)
            in if failed
               then Inr (close_conn (emit (Print (Log_send_err (addr state))) w3) state)
               else Inr (w3, state\<lparr>last_push := now\<rparr>))
         else Inr (w1, state))"

text \<open>
  A \<open>ConnState\<close> is shared by reference between the selector and the handler that
  mutates it; \<open>store\<close> writes the handler's result back to the selector entry.
\<close>

definition store :: "world \<Rightarrow> conn_state \<Rightarrow> world" where
  "store w state =
     w\<lparr>sel_map := map (\<lambda>(fd, s). if fd = sock state then (fd, state) else (fd, s)) (sel_map w)\<rparr>"

text \<open>
  One descriptor reported ready by \<open>sel.select\<close>: the listening socket, with the
  socket and address that \<open>accept\<close> will return, or a client socket, with what
  \<open>recv\<close> will do.
\<close>

datatype ready = Ready_listen nat nat | Ready_client nat recv_result

fun select_phase :: "world \<Rightarrow> ready list \<Rightarrow> world" where
  "select_phase w [] = w"
| "select_phase w (Ready_listen conn a # rs) = select_phase (accept w conn a) rs"
| "select_phase w (Ready_client fd r # rs) =
     (case map_of (sel_map w) fd of
        None \<Rightarrow> select_phase w rs
      | Some state \<Rightarrow>
          (case service w state r of (w1, state1) \<Rightarrow> select_phase (store w1 state1) rs))"

fun push_all :: "world \<Rightarrow> conn_state list \<Rightarrow> py_error + world" where
  "push_all w [] = Inr w"
| "push_all w (state # ss) =
     (case push_telem_if_due w state 3 of
        Inl e \<Rightarrow> Inl e
      | Inr (w1, state1) \<Rightarrow> push_all (store w1 state1) ss)"

text \<open>One iteration of the \<open>while True\<close> loop of \<open>main\<close>.\<close>

definition loop_iteration :: "world \<Rightarrow> ready list \<Rightarrow> py_error + world" where
  "loop_iteration w ready =
     (let w1 = select_phase w ready in push_all w1 (map snd (sel_map w1)))"

fun run :: "world \<Rightarrow> ready list list \<Rightarrow> py_error + world" where
  "run w [] = Inr w"
| "run w (ready # rest) =
     (case loop_iteration w ready of Inl e \<Rightarrow> Inl e | Inr w1 \<Rightarrow> run w1 rest)"

text \<open>The tokens that the \<open>if\<close>/\<open>elif\<close> chain of \<open>apply_cmd\<close> compares with.\<close>

definition apply_cmd_tokens :: "pystr list" where
  "apply_cmd_tokens = [u ''forward'', u ''back'', u ''stop'', u ''left'', u ''right'',
                       u ''center'', u ''resetodo'']"

text \<open>
  The recognized set in the words of the specification (section 3, Command): one of
  the tokens \<open>forward\<close>, \<open>back\<close>, \<open>stop\<close>, \<open>left\<close>, \<open>right\<close>, \<open>center\<close>,
  \<open>reset-odometer\<close>.
\<close>

definition spec_tokens :: "pystr list" where
  "spec_tokens = [u ''forward'', u ''back'', u ''stop'', u ''left'', u ''right'',
                  u ''center'', u ''reset-odometer'']"

text \<open>The \<open>[CMD]\<close> lines of a trace: the commands dispatched, in order.\<close>

fun dispatched :: "event list \<Rightarrow> pystr list" where
  "dispatched [] = []"
| "dispatched (Print (Log_cmd c) # es) = c # dispatched es"
| "dispatched (e # es) = dispatched es"

text \<open>
  The state after the module has been loaded: \<open>_telem\<close> is built (one sensor read)
  and \<open>_last_telem_time\<close> is set (one clock read).
\<close>

definition module_init :: "environment \<Rightarrow> bool \<Rightarrow> world" where
  "module_init e px =
     \<lparr>px_present = px,
      telem = \<lparr>direction = u ''stop'', speed_mps = 0, distance_m = 0,
               tempC = (case thermal e 0 of
                          None \<Rightarrow> 0 | Some m \<Rightarrow> rounding e (of_int m / 1000) 1),
               battery = 80, moving = u ''stop'', steer = u ''center''\<rparr>,
      last_telem_time = clock e 1,
      sel_map = [],
      env = e,
      steps = 2,
      trace = (if px then [] else [Print Log_px_error])\<rparr>"

text \<open>
  A concrete environment: the clock advances by a tenth of a second per call, the
  sensor reads 45 degrees, every write succeeds. \<open>env_broken\<close> is the same with
  every write failing.
\<close>

definition env0 :: environment where
  "env0 = \<lparr>ucd_lower = (\<lambda>s. s), rounding = ideal_round, clock = (\<lambda>n. 1700000000 + of_nat n / 10),
           thermal = (\<lambda>n. Some 45000), send_fails = (\<lambda>n. False)\<rparr>"

definition env_broken :: environment where
  "env_broken = env0\<lparr>send_fails := (\<lambda>n. True)\<rparr>"

text \<open>Sample states: a freshly started server on which one client has connected.\<close>

definition world1 :: world where
  "world1 = accept (module_init env0 True) 5 1"

section \<open>Basic facts\<close>

lemma u_eq_iff [simp]: "u a = u b \<longleftrightarrow> a = b"
  unfolding u_def by (rule inj_map_eq_map) (rule inj_of_char)

lemma lower_lit [simp]:
  "lower w (u ''forward'') = u ''forward''" "lower w (u ''back'') = u ''back''"
  "lower w (u ''stop'') = u ''stop''" "lower w (u ''left'') = u ''left''"
  "lower w (u ''right'') = u ''right''" "lower w (u ''center'') = u ''center''"
  by (simp_all add: lower_def py_lower_def u_def ascii_lower_def)

lemma lower_emit [simp]: "lower (emit e w) s = lower w s"
  by (simp add: lower_def emit_def)

lemma emit_fields [simp]:
  "px_present (emit e w) = px_present w" "telem (emit e w) = telem w"
  "last_telem_time (emit e w) = last_telem_time w" "sel_map (emit e w) = sel_map w"
  "env (emit e w) = env w" "steps (emit e w) = steps w" "trace (emit e w) = trace w @ [e]"
  by (simp_all add: emit_def)

lemma set_motion_lit:
  "set_motion w (u ''forward'') = (if px_present w then emit (Px (Px_forward CRUISE_SPEED)) w else w)"
  "set_motion w (u ''back'') = (if px_present w then emit (Px (Px_backward CRUISE_SPEED)) w else w)"
  "set_motion w (u ''stop'') = (if px_present w then emit (Px Px_stop) w else w)"
  by (simp_all add: set_motion_def Let_def)

lemma set_steer_lit:
  "set_steer w (u ''left'') = (if px_present w then emit (Px (Px_set_dir_servo_angle (- DIR_MAX_ANGLE))) w else w)"
  "set_steer w (u ''right'') = (if px_present w then emit (Px (Px_set_dir_servo_angle DIR_MAX_ANGLE)) w else w)"
  "set_steer w (u ''center'') = (if px_present w then emit (Px (Px_set_dir_servo_angle 0)) w else w)"
  by (simp_all add: set_steer_def Let_def)

lemma hw_safe_stop_eq:
  "hw_safe_stop w = w\<lparr>trace := trace w @ (if px_present w then [Px Px_stop, Px (Px_set_dir_servo_angle 0)] else [])\<rparr>"
  by (simp add: hw_safe_stop_def set_motion_lit set_steer_lit emit_def)

text \<open>apply_cmd in closed form\<close>

lemma apply_cmd_eq:
  "apply_cmd w cmd =
     (let c = lower w (py_strip cmd) in
      w\<lparr>telem :=
           (if c = u ''forward'' then (telem w)\<lparr>direction := u ''forward'', moving := u ''forward'', speed_mps := 0.55\<rparr>
            else if c = u ''back'' then (telem w)\<lparr>direction := u ''back'', moving := u ''back'', speed_mps := 0.55\<rparr>
            else if c = u ''stop'' then (telem w)\<lparr>direction := u ''stop'', moving := u ''stop'', speed_mps := 0\<rparr>
            else if c = u ''left'' then (telem w)\<lparr>steer := u ''left''\<rparr>
            else if c = u ''right'' then (telem w)\<lparr>steer := u ''right''\<rparr>
            else if c = u ''center'' then (telem w)\<lparr>steer := u ''center''\<rparr>
            else if c = u ''resetodo'' then (telem w)\<lparr>distance_m := 0\<rparr>
            else telem w),
         trace := trace w @ Print (Log_cmd c) #
           (if c = u ''forward'' then (if px_present w then [Px (Px_forward CRUISE_SPEED)] else [])
            else if c = u ''back'' then (if px_present w then [Px (Px_backward CRUISE_SPEED)] else [])
            else if c = u ''stop'' then (if px_present w then [Px Px_stop] else [])
            else if c = u ''left'' then (if px_present w then [Px (Px_set_dir_servo_angle (- DIR_MAX_ANGLE))] else [])
            else if c = u ''right'' then (if px_present w then [Px (Px_set_dir_servo_angle DIR_MAX_ANGLE)] else [])
            else if c = u ''center'' then (if px_present w then [Px (Px_set_dir_servo_angle 0)] else [])
            else if c = u ''resetodo'' then []
            else [Print (Log_warn c)])\<rparr>)"
  by (simp add: apply_cmd_def Let_def set_motion_lit set_steer_lit emit_def)

lemma close_conn_open:
  "\<not> closed state \<Longrightarrow> close_conn w state =
    (hw_safe_stop (emit (Sock_close (sock state))
       (w\<lparr>sel_map := filter (\<lambda>(fd, _). fd \<noteq> sock state) (sel_map w)\<rparr>)), state\<lparr>closed := True\<rparr>)"
  by (simp add: close_conn_def Let_def)

lemma close_conn_closed: "closed state \<Longrightarrow> close_conn w state = (w, state)"
  by (simp add: close_conn_def)

text \<open>
  Claim C4. Teardown of a connection that is still open unregisters it, closes the
  socket and calls \<open>hw_safe_stop\<close>, whatever the telemetry state; with a driver
  present this is a \<open>stop\<close> and a centring of the steering. Teardown of a connection
  already closed returns at once: no state changes and no further safe stop. After a
  teardown the connection is closed, so a second teardown is such a no-op.
\<close>

theorem close_conn_teardown:
  "(\<not> closed state \<longrightarrow>
      close_conn w state =
        (hw_safe_stop (emit (Sock_close (sock state))
           (w\<lparr>sel_map := filter (\<lambda>(fd, _). fd \<noteq> sock state) (sel_map w)\<rparr>)),
         state\<lparr>closed := True\<rparr>)
      \<and> trace (fst (close_conn w state)) =
          trace w @ Sock_close (sock state) #
            (if px_present w then [Px Px_stop, Px (Px_set_dir_servo_angle 0)] else []))
   \<and> (closed state \<longrightarrow> close_conn w state = (w, state))
   \<and> (case close_conn w state of (w1, state1) \<Rightarrow>
        closed state1 \<and> close_conn w1 state1 = (w1, state1))"
  by (simp add: close_conn_open close_conn_closed hw_safe_stop_eq split: prod.splits) (auto simp: close_conn_def Let_def)


lemma world1_fields:
  "px_present world1" "sel_map world1 = [(5, ConnState 5 1)]" "env world1 = env0" "steps world1 = 2"
  "trace world1 = [Print (Log_connected 1)]" "direction (telem world1) = u ''stop''"
  "speed_mps (telem world1) = 0" "distance_m (telem world1) = 0"
  by (simp_all add: world1_def accept_def module_init_def Let_def)

theorem close_conn_teardown_witness:
  "\<not> closed (ConnState 5 1) \<and>
   trace (fst (close_conn world1 (ConnState 5 1))) =
     [Print (Log_connected 1), Sock_close 5, Px Px_stop, Px (Px_set_dir_servo_angle 0)] \<and>
   closed (snd (close_conn world1 (ConnState 5 1))) \<and>
   close_conn (fst (close_conn world1 (ConnState 5 1))) (snd (close_conn world1 (ConnState 5 1)))
     = close_conn world1 (ConnState 5 1)"
  using close_conn_teardown [of "ConnState 5 1" world1]
  by (simp add: world1_fields ConnState_def hw_safe_stop_eq split: prod.splits)

section \<open>service loop\<close>

lemma py_find_ge: "- 1 \<le> py_find s ch"
  by (induction s) (auto simp: Let_def)

lemma py_find_none: "py_find s ch = - 1 \<longleftrightarrow> ch \<notin> set s"
proof (induction s)
  case (Cons a s)
  with py_find_ge [of s ch] show ?case by (auto simp: Let_def)
qed simp

lemma py_find_first: "ch \<notin> set line \<Longrightarrow> py_find (line @ ch # rest) ch = int (length line)"
  by (induction line) (auto simp: Let_def)

lemma split_at_nl:
  assumes "ch \<in> set s"
  shows "\<exists>line rest. s = line @ ch # rest \<and> ch \<notin> set line"
  using assms by (meson split_list_first)

lemma send_ack_eq:
  "send_ack w state cmd =
     w\<lparr>steps := Suc (steps w),
       trace := trace w @ Sendall (sock state) (Ack cmd) (\<not> send_fails (env w) (steps w)) #
                 (if send_fails (env w) (steps w) then [Print (Log_ack_err (addr state))] else [])\<rparr>"
  by (simp add: send_ack_def sendall_def emit_def Let_def)

lemma service_loop_no_nl: "10 \<notin> set (buf_in state) \<Longrightarrow> service_loop w state = (w, state)"
  by (subst service_loop.simps) (simp add: py_find_none)

lemma service_loop_line:
  assumes "buf_in state = line @ 10 # rest" "10 \<notin> set line"
  shows "service_loop w state =
     (if py_strip line = [] then service_loop w (state\<lparr>buf_in := rest\<rparr>)
      else service_loop (apply_cmd (send_ack w (state\<lparr>buf_in := rest\<rparr>) (py_strip line)) (py_strip line))
             (state\<lparr>buf_in := rest\<rparr>))"
proof -
  have f: "py_find (line @ 10 # rest) 10 = int (length line)"
    using assms(2) by (simp add: py_find_first)
  show ?thesis
    by (subst service_loop.simps) (simp add: f assms(1))
qed

lemma apply_cmd_frame [simp]:
  "px_present (apply_cmd w cmd) = px_present w" "last_telem_time (apply_cmd w cmd) = last_telem_time w"
  "sel_map (apply_cmd w cmd) = sel_map w" "env (apply_cmd w cmd) = env w"
  "steps (apply_cmd w cmd) = steps w"
  by (simp_all add: apply_cmd_eq Let_def)

lemma send_ack_frame [simp]:
  "px_present (send_ack w state cmd) = px_present w" "last_telem_time (send_ack w state cmd) = last_telem_time w"
  "sel_map (send_ack w state cmd) = sel_map w" "env (send_ack w state cmd) = env w"
  "telem (send_ack w state cmd) = telem w" "steps (send_ack w state cmd) = Suc (steps w)"
  by (simp_all add: send_ack_eq)

lemma lower_env: "env w = env w' \<Longrightarrow> lower w s = lower w' s"
  by (simp add: lower_def)

lemma lower_send_ack [simp]: "lower (send_ack w state cmd) s = lower w s"
  by (simp add: lower_def)

lemma prefix_apply_cmd: "prefix (trace w) (trace (apply_cmd w cmd))"
  by (simp add: apply_cmd_eq Let_def)

lemma prefix_send_ack: "prefix (trace w) (trace (send_ack w state cmd))"
  by (simp add: send_ack_eq)

lemma prefix_handle: "prefix (trace w) (trace (apply_cmd (send_ack w state cmd) cmd))"
  using prefix_apply_cmd prefix_send_ack prefix_order.trans by blast

lemma service_loop_frame:
  "px_present (fst (service_loop w state)) = px_present w
   \<and> last_telem_time (fst (service_loop w state)) = last_telem_time w
   \<and> sel_map (fst (service_loop w state)) = sel_map w
   \<and> env (fst (service_loop w state)) = env w
   \<and> closed (snd (service_loop w state)) = closed state
   \<and> sock (snd (service_loop w state)) = sock state
   \<and> addr (snd (service_loop w state)) = addr state
   \<and> last_push (snd (service_loop w state)) = last_push state"
proof (induction w state rule: service_loop.induct)
  case (1 w state)
  show ?case
  proof (cases "py_find (buf_in state) 10 = - 1")
    case True
    then show ?thesis by (subst (1 2 3 4 5 6 7 8) service_loop.simps) simp
  next
    case nl: False
    show ?thesis
    proof (cases "py_strip (take (nat (py_find (buf_in state) 10)) (buf_in state)) = []")
      case True
      with nl 1(1) show ?thesis by (subst (1 2 3 4 5 6 7 8) service_loop.simps) simp
    next
      case False
      with nl 1(2) show ?thesis
        by (subst (1 2 3 4 5 6 7 8) service_loop.simps) simp
    qed
  qed
qed

lemma service_loop_prefix: "prefix (trace w) (trace (fst (service_loop w state)))"
proof (induction w state rule: service_loop.induct)
  case (1 w state)
  show ?case
  proof (cases "py_find (buf_in state) 10 = - 1")
    case True
    then show ?thesis by (subst service_loop.simps) simp
  next
    case nl: False
    show ?thesis
    proof (cases "py_strip (take (nat (py_find (buf_in state) 10)) (buf_in state)) = []")
      case True
      with nl 1(1) show ?thesis by (subst service_loop.simps) simp
    next
      case False
      with nl 1(2) show ?thesis
        by (subst service_loop.simps) (simp, meson prefix_handle prefix_order.trans)
    qed
  qed
qed

section \<open>Command dispatch: trimming and case\<close>

lemma dropWhile_hd: "xs \<noteq> [] \<Longrightarrow> \<not> P (hd xs) \<Longrightarrow> dropWhile P xs = xs"
  by (cases xs) simp_all

lemma isspace_ascii_lower: "py_isspace c \<Longrightarrow> ascii_lower c = c"
  by (auto simp: py_isspace_def ascii_lower_def)

lemma strip_padded:
  assumes "list_all py_isspace pre" "list_all py_isspace post" "t \<noteq> []"
    "\<not> py_isspace (hd t)" "\<not> py_isspace (last t)"
  shows "py_strip (pre @ t @ post) = t"
proof -
  have a: "dropWhile py_isspace (pre @ t @ post) = t @ post"
    using assms by (simp add: dropWhile_append2 list_all_iff dropWhile_hd)
  have "hd (rev t) = last t" using assms(3) by (simp add: hd_rev)
  with assms have "dropWhile py_isspace (rev t) = rev t"
    by (simp add: dropWhile_hd)
  moreover have "dropWhile py_isspace (rev post @ rev t) = dropWhile py_isspace (rev t)"
    using assms(2) by (intro dropWhile_append2) (simp add: list_all_iff)
  ultimately have "dropWhile py_isspace (rev post @ rev t) = rev t"
    by simp
  then show ?thesis by (simp add: py_strip_def a)
qed

lemma ascii_lower_ascii: "list_all (\<lambda>c. c < 128) (map ascii_lower t) \<Longrightarrow> list_all (\<lambda>c. c < 128) t"
  by (induction t) (auto simp: ascii_lower_def split: if_splits)

lemma lower_strip_padded:
  assumes "list_all py_isspace pre" "list_all py_isspace post"
    and "map ascii_lower t = tok" "tok \<noteq> []" "list_all (\<lambda>c. c < 128) tok"
    "\<not> py_isspace (hd tok)" "\<not> py_isspace (last tok)"
  shows "lower w (py_strip (pre @ t @ post)) = tok"
proof -
  from assms have t: "t \<noteq> []" by auto
  have "hd tok = ascii_lower (hd t)" "last tok = ascii_lower (last t)"
    using assms(3) t by (auto simp: hd_map last_map)
  with assms have "\<not> py_isspace (hd t)" "\<not> py_isspace (last t)"
    using isspace_ascii_lower [of "hd t"] isspace_ascii_lower [of "last t"] by auto
  with assms t have "py_strip (pre @ t @ post) = t" by (simp add: strip_padded)
  moreover have "list_all (\<lambda>c. c < 128) t" using assms by (simp add: ascii_lower_ascii)
  ultimately show ?thesis using assms by (simp add: lower_def py_lower_def)
qed

lemma token_shape:
  "tok = u ''forward'' \<or> tok = u ''back'' \<or> tok = u ''stop'' \<or> tok = u ''resetodo'' \<Longrightarrow>
   tok \<noteq> [] \<and> list_all (\<lambda>c. c < 128) tok \<and> \<not> py_isspace (hd tok) \<and> \<not> py_isspace (last tok)"
  by (auto simp: u_def py_isspace_def)

text \<open>
  Claim C5, as amended. The set the dispatcher recognizes is \<open>apply_cmd_tokens\<close>:
  its odometer token is \<open>resetodo\<close>, not the \<open>reset-odometer\<close> of the
  specification's list. A command whose trimmed, lower-cased text is outside
  \<open>apply_cmd_tokens\<close> makes no driver call and leaves the telemetry state, and
  every other part of the state, as it was: the trace grows by the \<open>[CMD]\<close> line and
  the \<open>[WARN]\<close> diagnostic, and by nothing else.
\<close>

theorem apply_cmd_unrecognized:
  "lower w (py_strip cmd) \<notin> set apply_cmd_tokens \<Longrightarrow>
   apply_cmd w cmd =
     w\<lparr>trace := trace w @ [Print (Log_cmd (lower w (py_strip cmd))),
                            Print (Log_warn (lower w (py_strip cmd)))]\<rparr>"
  by (simp add: apply_cmd_eq apply_cmd_tokens_def Let_def)

theorem apply_cmd_unrecognized_witness:
  "lower world1 (py_strip (u ''jump'')) \<notin> set apply_cmd_tokens \<and>
   telem (apply_cmd world1 (u ''jump'')) = telem world1 \<and>
   trace (apply_cmd world1 (u ''jump'')) =
     [Print (Log_connected 1), Print (Log_cmd (u ''jump'')), Print (Log_warn (u ''jump''))]"
proof -
  have s: "lower world1 (py_strip (u ''jump'')) = u ''jump''"
    by (simp add: lower_def py_lower_def py_strip_def py_isspace_def ascii_lower_def u_def)
  have h: "lower world1 (py_strip (u ''jump'')) \<notin> set apply_cmd_tokens"
    by (simp add: s apply_cmd_tokens_def)
  show ?thesis
    using h apply_cmd_unrecognized [OF h] by (simp add: s world1_fields)
qed

text \<open>
  \<open>resetodo\<close> is outside the specification's list, yet dispatching it zeroes the
  accumulated distance and prints no diagnostic.
\<close>

theorem spec_tokens_counterexample:
  "lower (world1\<lparr>telem := (telem world1)\<lparr>distance_m := 5\<rparr>\<rparr>) (py_strip (u ''resetodo''))
     \<notin> set spec_tokens
   \<and> distance_m (telem (world1\<lparr>telem := (telem world1)\<lparr>distance_m := 5\<rparr>\<rparr>)) = 5
   \<and> distance_m (telem (apply_cmd (world1\<lparr>telem := (telem world1)\<lparr>distance_m := 5\<rparr>\<rparr>)
                                (u ''resetodo''))) = 0
   \<and> trace (apply_cmd (world1\<lparr>telem := (telem world1)\<lparr>distance_m := 5\<rparr>\<rparr>)
                    (u ''resetodo''))
       = trace world1 @ [Print (Log_cmd (u ''resetodo''))]"
proof -
  have s: "lower w (py_strip (u ''resetodo'')) = u ''resetodo''" for w
    by (simp add: lower_def py_lower_def py_strip_def py_isspace_def ascii_lower_def u_def)
  show ?thesis
    by (simp add: apply_cmd_eq Let_def s spec_tokens_def)
qed

text \<open>
  Claim C8. Dispatch trims surrounding whitespace and ignores ASCII case. For a text
  that is \<open>forward\<close>, \<open>back\<close> or \<open>stop\<close> in any casing, padded with whitespace
  on both sides: \<open>forward\<close> calls \<open>px.forward(CRUISE_SPEED)\<close> and sets direction
  \<open>forward\<close> and speed 0.55; \<open>back\<close> calls \<open>px.backward(CRUISE_SPEED)\<close> and sets
  direction \<open>back\<close> and speed 0.55; \<open>stop\<close> calls \<open>px.stop()\<close> and sets direction
  \<open>stop\<close> and speed 0. Without a driver the calls are skipped and the telemetry
  is updated all the same.
\<close>

theorem apply_cmd_motion_tokens:
  assumes "list_all py_isspace pre" and "list_all py_isspace post"
  shows "(map ascii_lower t = u ''forward'' \<longrightarrow>
           apply_cmd w (pre @ t @ post) =
             w\<lparr>telem := (telem w)\<lparr>direction := u ''forward'', moving := u ''forward'',
                                   speed_mps := 0.55\<rparr>,
               trace := trace w @ Print (Log_cmd (u ''forward'')) #
                 (if px_present w then [Px (Px_forward CRUISE_SPEED)] else [])\<rparr>)
    \<and> (map ascii_lower t = u ''back'' \<longrightarrow>
           apply_cmd w (pre @ t @ post) =
             w\<lparr>telem := (telem w)\<lparr>direction := u ''back'', moving := u ''back'',
                                   speed_mps := 0.55\<rparr>,
               trace := trace w @ Print (Log_cmd (u ''back'')) #
                 (if px_present w then [Px (Px_backward CRUISE_SPEED)] else [])\<rparr>)
    \<and> (map ascii_lower t = u ''stop'' \<longrightarrow>
           apply_cmd w (pre @ t @ post) =
             w\<lparr>telem := (telem w)\<lparr>direction := u ''stop'', moving := u ''stop'',
                                   speed_mps := 0\<rparr>,
               trace := trace w @ Print (Log_cmd (u ''stop'')) #
                 (if px_present w then [Px Px_stop] else [])\<rparr>)
    \<and> (0::real) < 0.55"
  using assms token_shape
  by (auto simp: apply_cmd_eq Let_def lower_strip_padded)

theorem apply_cmd_motion_tokens_witness:
  "list_all py_isspace (u ''  '') \<and> list_all py_isspace [9, 13]
   \<and> map ascii_lower (u ''FoRwArD'') = u ''forward''
   \<and> map ascii_lower (u ''BACK'') = u ''back''
   \<and> map ascii_lower (u ''Stop'') = u ''stop''
   \<and> direction (telem (apply_cmd world1 (u ''  '' @ u ''FoRwArD'' @ [9, 13]))) = u ''forward''
   \<and> speed_mps (telem (apply_cmd world1 (u ''  '' @ u ''FoRwArD'' @ [9, 13]))) = 0.55
   \<and> trace (apply_cmd world1 (u ''  '' @ u ''FoRwArD'' @ [9, 13])) =
        [Print (Log_connected 1), Print (Log_cmd (u ''forward'')), Px (Px_forward 80)]
   \<and> direction (telem (apply_cmd world1 (u ''  '' @ u ''BACK'' @ [9, 13]))) = u ''back''
   \<and> trace (apply_cmd world1 (u ''  '' @ u ''BACK'' @ [9, 13])) =
        [Print (Log_connected 1), Print (Log_cmd (u ''back'')), Px (Px_backward 80)]
   \<and> direction (telem (apply_cmd world1 (u ''  '' @ u ''Stop'' @ [9, 13]))) = u ''stop''
   \<and> speed_mps (telem (apply_cmd world1 (u ''  '' @ u ''Stop'' @ [9, 13]))) = 0
   \<and> trace (apply_cmd world1 (u ''  '' @ u ''Stop'' @ [9, 13])) =
        [Print (Log_connected 1), Print (Log_cmd (u ''stop'')), Px Px_stop]"
proof -
  have pre: "list_all py_isspace (u ''  '')" and post: "list_all py_isspace [9, 13]"
    by (simp_all add: u_def py_isspace_def)
  have f: "map ascii_lower (u ''FoRwArD'') = u ''forward''"
    and b: "map ascii_lower (u ''BACK'') = u ''back''"
    and s: "map ascii_lower (u ''Stop'') = u ''stop''"
    by (simp_all add: u_def ascii_lower_def)
  show ?thesis
    using pre post f b s
      apply_cmd_motion_tokens [OF pre post, of "u ''FoRwArD''" world1]
      apply_cmd_motion_tokens [OF pre post, of "u ''BACK''" world1]
      apply_cmd_motion_tokens [OF pre post, of "u ''Stop''" world1]
    by (simp add: world1_fields CRUISE_SPEED_def)
qed

text \<open>
  Claim C3, as amended. The token that resets the odometer is \<open>resetodo\<close>:
  dispatching it (in any casing, padded with whitespace) sets the accumulated
  distance to 0 and leaves direction, speed and every other part of the state
  unchanged. The text \<open>reset-odometer\<close> is not a token of the dispatcher;
  dispatching it leaves the accumulated distance as it was.
\<close>

theorem apply_cmd_resetodo:
  assumes "list_all py_isspace pre" and "list_all py_isspace post"
    and "map ascii_lower t = u ''resetodo''"
  shows "apply_cmd w (pre @ t @ post) =
           w\<lparr>telem := (telem w)\<lparr>distance_m := 0\<rparr>,
             trace := trace w @ [Print (Log_cmd (u ''resetodo''))]\<rparr>
    \<and> distance_m (telem (apply_cmd w (pre @ t @ post))) = 0
    \<and> direction (telem (apply_cmd w (pre @ t @ post))) = direction (telem w)
    \<and> speed_mps (telem (apply_cmd w (pre @ t @ post))) = speed_mps (telem w)"
proof -
  have "lower w (py_strip (pre @ t @ post)) = u ''resetodo''"
    using assms token_shape [of "u ''resetodo''"] by (simp add: lower_strip_padded)
  then show ?thesis by (simp add: apply_cmd_eq Let_def)
qed

theorem apply_cmd_resetodo_witness:
  "list_all py_isspace [] \<and> list_all py_isspace [13]
   \<and> map ascii_lower (u ''ResetOdo'') = u ''resetodo''
   \<and> distance_m (telem (apply_cmd world1 ([] @ u ''ResetOdo'' @ [13]))) = 0
   \<and> direction (telem (apply_cmd world1 ([] @ u ''ResetOdo'' @ [13]))) = u ''stop''"
proof -
  have pre: "list_all py_isspace []" and post: "list_all py_isspace [13]"
    by (simp_all add: py_isspace_def)
  have t: "map ascii_lower (u ''ResetOdo'') = u ''resetodo''"
    by (simp add: u_def ascii_lower_def)
  show ?thesis
    using pre post t apply_cmd_resetodo [OF pre post t, of world1]
    by (simp add: world1_fields)
qed

theorem reset_odometer_counterexample:
  "distance_m (telem (apply_cmd (world1\<lparr>telem := (telem world1)\<lparr>distance_m := 5\<rparr>\<rparr>)
                                (u ''reset-odometer''))) = 5
   \<and> distance_m (telem (apply_cmd (world1\<lparr>telem := (telem world1)\<lparr>distance_m := 5\<rparr>\<rparr>)
                                (u ''reset-odometer''))) \<noteq> 0"
proof -
  have s: "lower w (py_strip (u ''reset-odometer'')) = u ''reset-odometer''" for w
    by (simp add: lower_def py_lower_def py_strip_def py_isspace_def ascii_lower_def u_def)
  show ?thesis
    by (simp add: apply_cmd_eq Let_def s)
qed

section \<open>Acknowledgement and dispatch in the service loop\<close>

text \<open>The same sample state on a network where every write fails.\<close>

definition world2 :: world where
  "world2 = accept (module_init env_broken True) 5 1"

lemma world2_fields:
  "px_present world2" "sel_map world2 = [(5, ConnState 5 1)]" "env world2 = env_broken"
  "steps world2 = 2" "trace world2 = [Print (Log_connected 1)]"
  "direction (telem world2) = u ''stop''" "speed_mps (telem world2) = 0"
  "distance_m (telem world2) = 0"
  by (simp_all add: world2_def accept_def module_init_def Let_def)

lemma u_Nil [simp]: "u s = [] \<longleftrightarrow> s = []"
  by (simp add: u_def)

lemma strip_lit:
  "py_strip (u ''stop'') = u ''stop''" "py_strip (u ''forward'') = u ''forward''"
  by (simp_all add: py_strip_def py_isspace_def u_def)

lemma dropWhile_rev_trim:
  "dropWhile P a = a \<Longrightarrow> dropWhile P (rev (dropWhile P (rev a))) = rev (dropWhile P (rev a))"
proof (induction a rule: rev_induct)
  case Nil
  then show ?case by simp
next
  case (snoc x xs)
  show ?case
  proof (cases "P x")
    case False
    with snoc.prems show ?thesis by simp
  next
    case True
    have "dropWhile P xs = xs"
    proof (cases xs)
      case Nil
      then show ?thesis by simp
    next
      case (Cons y ys)
      with snoc.prems length_dropWhile_le [of P "ys @ [x]"] show ?thesis
        by (auto split: if_splits)
    qed
    with snoc.IH True show ?thesis by simp
  qed
qed

lemma py_strip_idem [simp]: "py_strip (py_strip s) = py_strip s"
  by (simp add: py_strip_def dropWhile_rev_trim)

lemma trace_apply_cmd_hd:
  "prefix (trace w @ [Print (Log_cmd (lower w (py_strip cmd)))]) (trace (apply_cmd w cmd))"
  by (simp add: apply_cmd_eq Let_def)

text \<open>
  Claim C6. When the buffer starts with a line whose trimmed text is not empty, the
  service loop first writes the ACK that echoes the trimmed text on the connection's
  socket, then, if that write raised, prints the \<open>[ACK ERR]\<close> diagnostic, and then
  dispatches the command (the \<open>[CMD]\<close> line of \<open>apply_cmd\<close> follows in the trace)
  and goes on with the rest of the buffer. The dispatch happens whether the write
  succeeded or not.
\<close>

theorem service_loop_ack_then_dispatch:
  assumes "buf_in state = line @ 10 # rest" and "10 \<notin> set line" and "py_strip line \<noteq> []"
  shows "service_loop w state =
           service_loop
             (apply_cmd (send_ack w (state\<lparr>buf_in := rest\<rparr>) (py_strip line)) (py_strip line))
             (state\<lparr>buf_in := rest\<rparr>)
    \<and> prefix
        (trace w
         @ Sendall (sock state) (Ack (py_strip line)) (\<not> send_fails (env w) (steps w))
           # (if send_fails (env w) (steps w) then [Print (Log_ack_err (addr state))] else [])
         @ [Print (Log_cmd (lower w (py_strip line)))])
        (trace (fst (service_loop w state)))"
proof -
  let ?st = "state\<lparr>buf_in := rest\<rparr>"
  let ?w1 = "send_ack w ?st (py_strip line)"
  let ?w2 = "apply_cmd ?w1 (py_strip line)"
  have eq: "service_loop w state = service_loop ?w2 ?st"
    using assms by (simp add: service_loop_line)
  have p1: "prefix (trace ?w1 @ [Print (Log_cmd (lower ?w1 (py_strip line)))]) (trace ?w2)"
    using trace_apply_cmd_hd [of ?w1 "py_strip line"] by simp
  have p2: "prefix (trace ?w2) (trace (fst (service_loop ?w2 ?st)))"
    using service_loop_prefix [of ?w2 ?st] .
  have "prefix (trace ?w1 @ [Print (Log_cmd (lower ?w1 (py_strip line)))])
      (trace (fst (service_loop ?w2 ?st)))"
    using p1 p2 by (rule prefix_order.trans)
  then have r: "prefix (trace ?w1 @ [Print (Log_cmd (lower w (py_strip line)))])
      (trace (fst (service_loop w state)))"
    using eq by simp
  have t1: "trace ?w1 = trace w
      @ Sendall (sock state) (Ack (py_strip line)) (\<not> send_fails (env w) (steps w))
        # (if send_fails (env w) (steps w) then [Print (Log_ack_err (addr state))] else [])"
    by (simp add: send_ack_eq)
  have "prefix
        (trace w
         @ Sendall (sock state) (Ack (py_strip line)) (\<not> send_fails (env w) (steps w))
           # (if send_fails (env w) (steps w) then [Print (Log_ack_err (addr state))] else [])
         @ [Print (Log_cmd (lower w (py_strip line)))])
        (trace (fst (service_loop w state)))"
    using r unfolding t1 by simp
  with eq show ?thesis by (intro conjI)
qed

theorem service_loop_ack_then_dispatch_witness:
  "buf_in ((ConnState 5 1)\<lparr>buf_in := u ''stop'' @ 10 # []\<rparr>) = u ''stop'' @ 10 # []
   \<and> 10 \<notin> set (u ''stop'') \<and> py_strip (u ''stop'') \<noteq> []
   \<and> send_fails (env world2) (steps world2)
   \<and> prefix [Print (Log_connected 1), Sendall 5 (Ack (u ''stop'')) False,
              Print (Log_ack_err 1), Print (Log_cmd (u ''stop''))]
        (trace (fst (service_loop world2 ((ConnState 5 1)\<lparr>buf_in := u ''stop'' @ 10 # []\<rparr>))))"
proof -
  have a: "buf_in ((ConnState 5 1)\<lparr>buf_in := u ''stop'' @ 10 # []\<rparr>) = u ''stop'' @ 10 # []"
    by simp
  have b: "10 \<notin> set (u ''stop'')" by (simp add: u_def)
  have c: "py_strip (u ''stop'') \<noteq> []" by (simp add: strip_lit)
  show ?thesis
    using a b c service_loop_ack_then_dispatch [OF a b c, of world2, THEN conjunct2]
    by (simp add: world2_fields strip_lit ConnState_def env_broken_def)
qed

section \<open>Telemetry push\<close>

lemma telemetry_tick_eq:
  "telemetry_tick w =
     ((telem w)\<lparr>distance_m :=
          rounding (env w) (distance_m (telem w)
                    + speed_mps (telem w) * (clock (env w) (steps w) - last_telem_time w)) 2,
        tempC := (case thermal (env w) (Suc (steps w)) of
                    None \<Rightarrow> 0 | Some m \<Rightarrow> rounding (env w) (of_int m / 1000) 1)\<rparr>,
      w\<lparr>steps := Suc (Suc (steps w)),
        last_telem_time := clock (env w) (steps w),
        telem := (telem w)\<lparr>distance_m :=
          rounding (env w) (distance_m (telem w)
                    + speed_mps (telem w) * (clock (env w) (steps w) - last_telem_time w)) 2,
          tempC := (case thermal (env w) (Suc (steps w)) of
                      None \<Rightarrow> 0 | Some m \<Rightarrow> rounding (env w) (of_int m / 1000) 1)\<rparr>\<rparr>)"
  by (simp add: telemetry_tick_def time_time_def cpu_temp_c_def Let_def cong: option.case_cong)

text \<open>The state in which \<open>push_telem_if_due\<close> finds itself after a due push was written.\<close>

definition pushed :: "world \<Rightarrow> conn_state \<Rightarrow> world" where
  "pushed w state =
     (let w2 = snd (telemetry_tick (w\<lparr>steps := Suc (steps w)\<rparr>))
      in w2\<lparr>steps := steps w + 4,
            trace := trace w @ [Sendall (sock state) (Telemetry_line (telem w2))
                                  (\<not> send_fails (env w) (steps w + 3))]\<rparr>)"

lemma push_telem_if_due_eq:
  "push_telem_if_due w state hz =
     (if hz = 0 then Inl ZeroDivisionError
      else if 1 / hz \<le> clock (env w) (steps w) - last_push state then
        (if send_fails (env w) (steps w + 3)
         then Inr (close_conn (emit (Print (Log_send_err (addr state))) (pushed w state)) state)
         else Inr (pushed w state, state\<lparr>last_push := clock (env w) (steps w)\<rparr>))
      else Inr (w\<lparr>steps := Suc (steps w)\<rparr>, state))"
  by (simp add: push_telem_if_due_def pushed_def time_time_def telemetry_tick_eq sendall_def
      emit_def Let_def eval_nat_numeral)

lemma pushed_fields [simp]:
  "px_present (pushed w state) = px_present w" "sel_map (pushed w state) = sel_map w"
  "env (pushed w state) = env w" "steps (pushed w state) = steps w + 4"
  "direction (telem (pushed w state)) = direction (telem w)"
  "speed_mps (telem (pushed w state)) = speed_mps (telem w)"
  "trace (pushed w state) =
     trace w @ [Sendall (sock state) (Telemetry_line (telem (pushed w state)))
                  (\<not> send_fails (env w) (steps w + 3))]"
  by (simp_all add: pushed_def telemetry_tick_eq Let_def)

lemma close_conn_closed_after: "closed (snd (close_conn w state))"
  by (simp add: close_conn_def Let_def)

lemma close_conn_unregisters:
  "\<not> closed state \<Longrightarrow> sock state \<notin> fst ` set (sel_map (fst (close_conn w state)))"
  by (auto simp: close_conn_def Let_def hw_safe_stop_eq)

lemma ConnState_fields:
  "sock (ConnState s a) = s" "addr (ConnState s a) = a" "buf_in (ConnState s a) = []"
  "last_push (ConnState s a) = 0" "closed (ConnState s a) = False"
  by (simp_all add: ConnState_def)

text \<open>
  Claim C7, as amended. A telemetry write that fails is fatal to the connection:
  \<open>push_telem_if_due\<close> prints the \<open>[SEND ERR]\<close> line and tears the connection down,
  after which it is closed and, if it was open, no longer registered. An ACK write
  that fails is not: the service loop, and so a read that delivered data, never
  unregisters or closes the connection, whatever the outcome of the ACK writes.
\<close>

theorem write_failure_teardown:
  "(hz \<noteq> 0 \<and> 1 / hz \<le> clock (env w) (steps w) - last_push state
      \<and> send_fails (env w) (steps w + 3) \<longrightarrow>
      (\<exists>wf. push_telem_if_due w state hz = Inr (close_conn wf state)
            \<and> trace wf = trace w @ [Sendall (sock state) (Telemetry_line (telem wf)) False,
                                     Print (Log_send_err (addr state))]
            \<and> closed (snd (close_conn wf state))
            \<and> (\<not> closed state \<longrightarrow>
                 sock state \<notin> fst ` set (sel_map (fst (close_conn wf state))))))
   \<and> sel_map (fst (service_loop w state)) = sel_map w
   \<and> closed (snd (service_loop w state)) = closed state
   \<and> (chunk \<noteq> [] \<longrightarrow>
        sel_map (fst (service w state (Recv_data chunk))) = sel_map w
        \<and> closed (snd (service w state (Recv_data chunk))) = closed state)"
proof -
  have "\<exists>wf. push_telem_if_due w state hz = Inr (close_conn wf state)
            \<and> trace wf = trace w @ [Sendall (sock state) (Telemetry_line (telem wf)) False,
                                     Print (Log_send_err (addr state))]
            \<and> closed (snd (close_conn wf state))
            \<and> (\<not> closed state \<longrightarrow>
                 sock state \<notin> fst ` set (sel_map (fst (close_conn wf state))))"
    if "hz \<noteq> 0" "1 / hz \<le> clock (env w) (steps w) - last_push state"
      "send_fails (env w) (steps w + 3)"
    using that
    by (intro exI [of _ "emit (Print (Log_send_err (addr state))) (pushed w state)"])
       (simp add: push_telem_if_due_eq close_conn_closed_after close_conn_unregisters)
  moreover have "sel_map (fst (service w state (Recv_data chunk))) = sel_map w
        \<and> closed (snd (service w state (Recv_data chunk))) = closed state" if "chunk \<noteq> []"
    using that by (simp add: service_def Let_def service_loop_frame)
  ultimately show ?thesis
    by (simp add: service_loop_frame)
qed


theorem write_failure_teardown_witness:
  "(3::real) \<noteq> 0
   \<and> 1 / 3 \<le> clock (env world2) (steps world2) - last_push (ConnState 5 1)
   \<and> send_fails (env world2) (steps world2 + 3)
   \<and> \<not> closed (ConnState 5 1)
   \<and> [10 :: byte] \<noteq> []
   \<and> (case push_telem_if_due world2 (ConnState 5 1) 3 of
         Inl e \<Rightarrow> False
       | Inr r \<Rightarrow> closed (snd r) \<and> 5 \<notin> fst ` set (sel_map (fst r)))
   \<and> sel_map (fst (service world2 (ConnState 5 1) (Recv_data [10]))) = [(5, ConnState 5 1)]
   \<and> \<not> closed (snd (service world2 (ConnState 5 1) (Recv_data [10])))"
proof -
  have h1: "(3::real) \<noteq> 0" by simp
  have h2: "1 / 3 \<le> clock (env world2) (steps world2) - last_push (ConnState 5 1)"
    by (simp add: world2_fields env_broken_def env0_def ConnState_def)
  have h3: "send_fails (env world2) (steps world2 + 3)"
    by (simp add: world2_fields env_broken_def)
  have h4: "\<not> closed (ConnState 5 1)" by (simp add: ConnState_def)
  have h5: "[10 :: byte] \<noteq> []" by simp
  note t = write_failure_teardown [of 3 world2 "ConnState 5 1" "[10]"]
  from t h1 h2 h3 h4 obtain wf where
    "push_telem_if_due world2 (ConnState 5 1) 3 = Inr (close_conn wf (ConnState 5 1))"
    "closed (snd (close_conn wf (ConnState 5 1)))"
    "sock (ConnState 5 1) \<notin> fst ` set (sel_map (fst (close_conn wf (ConnState 5 1))))"
    by blast
  then have c1: "case push_telem_if_due world2 (ConnState 5 1) 3 of
         Inl e \<Rightarrow> False
       | Inr r \<Rightarrow> closed (snd r) \<and> 5 \<notin> fst ` set (sel_map (fst r))"
    by (simp add: ConnState_def)
  from t h5 have c2: "sel_map (fst (service world2 (ConnState 5 1) (Recv_data [10]))) = [(5, ConnState 5 1)]"
    "\<not> closed (snd (service world2 (ConnState 5 1) (Recv_data [10])))"
    by (simp_all add: world2_fields ConnState_def)
  from h1 h2 h3 h4 h5 c1 c2 show ?thesis by blast
qed

theorem ack_write_failure_counterexample:
  "Sendall 5 (Ack (u ''stop'')) False
     \<in> set (trace (fst (service world2 (ConnState 5 1) (Recv_data [0x73, 0x74, 0x6F, 0x70, 0x0A]))))
   \<and> \<not> closed (snd (service world2 (ConnState 5 1) (Recv_data [0x73, 0x74, 0x6F, 0x70, 0x0A])))
   \<and> map_of (sel_map (fst (service world2 (ConnState 5 1)
                              (Recv_data [0x73, 0x74, 0x6F, 0x70, 0x0A])))) 5 \<noteq> None
   \<and> Sock_close 5
     \<notin> set (trace (fst (service world2 (ConnState 5 1) (Recv_data [0x73, 0x74, 0x6F, 0x70, 0x0A]))))"
proof -
  have b: "[115, 116, 111, 112, 10] = u ''stop'' @ [10]"
    by (simp add: u_def)
  have r: "replace_crlf (u ''stop'' @ [10]) = u ''stop'' @ [10]"
    by (simp add: u_def)
  have n: "10 \<notin> set (u ''stop'')" by (simp add: u_def)
  have l: "service_loop w (st\<lparr>buf_in := u ''stop'' @ [10]\<rparr>) =
      (apply_cmd (send_ack w (st\<lparr>buf_in := []\<rparr>) (u ''stop'')) (u ''stop''),
       st\<lparr>buf_in := []\<rparr>)" for w st
    using service_loop_line [of "st\<lparr>buf_in := u ''stop'' @ [10]\<rparr>" "u ''stop''" "[]" w] n
    by (simp add: strip_lit service_loop_no_nl)
  have s: "service world2 (ConnState 5 1) (Recv_data [0x73, 0x74, 0x6F, 0x70, 0x0A]) =
      (apply_cmd (send_ack (emit (Print (Log_rx 1 (u ''stop'' @ [10]))) world2)
                    ((ConnState 5 1)\<lparr>buf_in := []\<rparr>) (u ''stop'')) (u ''stop''),
       (ConnState 5 1)\<lparr>buf_in := []\<rparr>)"
    by (simp add: service_def b r l Let_def ConnState_fields)
  show ?thesis
    unfolding s
    by (simp add: apply_cmd_eq send_ack_eq strip_lit Let_def world2_fields env_broken_def
        ConnState_def)
qed

section \<open>The reactor loop\<close>

lemma store_fields [simp]:
  "px_present (store w s) = px_present w" "telem (store w s) = telem w"
  "last_telem_time (store w s) = last_telem_time w" "env (store w s) = env w"
  "steps (store w s) = steps w" "trace (store w s) = trace w"
  by (simp_all add: store_def)

lemma store_Nil [simp]: "sel_map w = [] \<Longrightarrow> store w s = w"
  by (simp add: store_def)

lemma hw_safe_stop_fields [simp]:
  "px_present (hw_safe_stop w) = px_present w" "telem (hw_safe_stop w) = telem w"
  "last_telem_time (hw_safe_stop w) = last_telem_time w" "env (hw_safe_stop w) = env w"
  "steps (hw_safe_stop w) = steps w" "sel_map (hw_safe_stop w) = sel_map w"
  "prefix (trace w) (trace (hw_safe_stop w))"
  by (simp_all add: hw_safe_stop_eq)

lemma close_conn_fields [simp]:
  "px_present (fst (close_conn w s)) = px_present w" "telem (fst (close_conn w s)) = telem w"
  "last_telem_time (fst (close_conn w s)) = last_telem_time w"
  "env (fst (close_conn w s)) = env w" "steps (fst (close_conn w s)) = steps w"
  by (simp_all add: close_conn_def Let_def)

lemma close_conn_prefix: "prefix (trace w) (trace (fst (close_conn w s)))"
  by (simp add: close_conn_def Let_def hw_safe_stop_eq)

text \<open>One push at the reactor's rate never fails and never touches direction or speed.\<close>

lemma push_step:
  "\<exists>w1 s1. push_telem_if_due w s 3 = Inr (w1, s1)
     \<and> direction (telem w1) = direction (telem w)
     \<and> speed_mps (telem w1) = speed_mps (telem w)
     \<and> env w1 = env w \<and> prefix (trace w) (trace w1)"
proof (cases "1 / 3 \<le> clock (env w) (steps w) - last_push s")
  case False
  then show ?thesis by (simp add: push_telem_if_due_eq)
next
  case due: True
  show ?thesis
  proof (cases "send_fails (env w) (steps w + 3)")
    case False
    with due show ?thesis by (simp add: push_telem_if_due_eq)
  next
    case True
    let ?wf = "emit (Print (Log_send_err (addr s))) (pushed w s)"
    have a: "push_telem_if_due w s 3 = Inr (fst (close_conn ?wf s), snd (close_conn ?wf s))"
      using due True by (simp add: push_telem_if_due_eq)
    have b: "prefix (trace w) (trace (fst (close_conn ?wf s)))"
      using close_conn_prefix [of ?wf s] by (auto simp: prefix_def)
    show ?thesis
      by (intro exI [of _ "fst (close_conn ?wf s)"] exI [of _ "snd (close_conn ?wf s)"])
         (simp add: a b)
  qed
qed

lemma push_all_frame:
  "\<exists>w'. push_all w ss = Inr w'
     \<and> direction (telem w') = direction (telem w)
     \<and> speed_mps (telem w') = speed_mps (telem w)
     \<and> env w' = env w \<and> prefix (trace w) (trace w')"
proof (induction ss arbitrary: w)
  case Nil
  show ?case by simp
next
  case (Cons s ss)
  from push_step [of w s] obtain w1 s1 where
    p: "push_telem_if_due w s 3 = Inr (w1, s1)"
    and f: "direction (telem w1) = direction (telem w)" "speed_mps (telem w1) = speed_mps (telem w)"
      "env w1 = env w" "prefix (trace w) (trace w1)"
    by blast
  from Cons.IH [of "store w1 s1"] obtain w' where
    "push_all (store w1 s1) ss = Inr w'"
    "direction (telem w') = direction (telem (store w1 s1))"
    "speed_mps (telem w') = speed_mps (telem (store w1 s1))"
    "env w' = env (store w1 s1)" "prefix (trace (store w1 s1)) (trace w')"
    by blast
  with p f show ?case
    by (auto intro: prefix_order.trans)
qed

section \<open>The first push to a new connection\<close>

lemma push_all_append:
  "push_all w (xs @ ys) = (case push_all w xs of Inl e \<Rightarrow> Inl e | Inr w1 \<Rightarrow> push_all w1 ys)"
  by (induction xs arbitrary: w) (auto split: sum.splits prod.splits)

lemma close_conn_trace_open:
  "\<not> closed s \<Longrightarrow> trace (fst (close_conn w s)) =
     trace w @ Sock_close (sock s) #
       (if px_present w then [Px Px_stop, Px (Px_set_dir_servo_angle 0)] else [])"
  by (simp add: close_conn_open hw_safe_stop_eq)

lemma first_push:
  assumes "hz \<noteq> 0" and "1 / hz \<le> clock (env w) (steps w)"
  shows "\<exists>w1 s1 tl. push_telem_if_due w (ConnState fd a) hz = Inr (w1, s1)
     \<and> trace w1 = trace w @ Sendall fd (Telemetry_line (telem w1))
                              (\<not> send_fails (env w) (steps w + 3)) # tl
     \<and> (\<not> send_fails (env w) (steps w + 3) \<longrightarrow> last_push s1 = clock (env w) (steps w))"
proof (cases "send_fails (env w) (steps w + 3)")
  case False
  with assms show ?thesis
    by (simp add: push_telem_if_due_eq ConnState_fields)
next
  case True
  let ?S = "ConnState fd a"
  let ?wf = "emit (Print (Log_send_err (addr ?S))) (pushed w ?S)"
  have a: "push_telem_if_due w ?S hz = Inr (fst (close_conn ?wf ?S), snd (close_conn ?wf ?S))"
    using assms True by (simp add: push_telem_if_due_eq ConnState_fields)
  have b: "trace (fst (close_conn ?wf ?S)) =
      trace w @ Sendall fd (Telemetry_line (telem (fst (close_conn ?wf ?S)))) False #
        (Print (Log_send_err a) # Sock_close fd #
           (if px_present w then [Px Px_stop, Px (Px_set_dir_servo_angle 0)] else []))"
    using True by (simp add: close_conn_trace_open ConnState_fields)
  show ?thesis
    using True
    by (intro exI [of _ "fst (close_conn ?wf ?S)"] exI [of _ "snd (close_conn ?wf ?S)"]
          exI [of _ "Print (Log_send_err a) # Sock_close fd #
           (if px_present w then [Px Px_stop, Px (Px_set_dir_servo_angle 0)] else [])"])
       (simp add: a b)
qed

text \<open>
  Claim C10. A new \<open>ConnState\<close> has \<open>last_push = 0\<close>. Hence, for every rate
  \<open>hz\<close> other than 0 with \<open>1 / hz\<close> not above the clock reading (the clock
  counts seconds since 1970, so this holds for every rate above a few billionths
  of a hertz, and for the reactor's 3 Hz), the first \<open>push_telem_if_due\<close> on it finds
  the push due and writes a telemetry line on its socket; when the write succeeds
  \<open>last_push\<close> becomes the clock reading. In the reactor the push follows in the
  very iteration that accepted the connection.
\<close>

theorem first_push_is_due:
  "last_push (ConnState fd a) = 0
   \<and> (hz \<noteq> 0 \<and> 1 / hz \<le> clock (env w) (steps w) \<longrightarrow>
        (\<exists>w1 s1 tl. push_telem_if_due w (ConnState fd a) hz = Inr (w1, s1)
           \<and> trace w1 = trace w @ Sendall fd (Telemetry_line (telem w1))
                                    (\<not> send_fails (env w) (steps w + 3)) # tl
           \<and> (\<not> send_fails (env w) (steps w + 3) \<longrightarrow>
                last_push s1 = clock (env w) (steps w))))
   \<and> ((\<forall>n. 1 / 3 \<le> clock (env w) n) \<longrightarrow>
        (\<exists>w1 pre p ok tl. loop_iteration w [Ready_listen fd a] = Inr w1
           \<and> trace w1 = trace w @ Print (Log_connected a) # pre
                          @ Sendall fd (Telemetry_line p) ok # tl))"
proof (intro conjI impI)
  show "last_push (ConnState fd a) = 0"
    by (simp add: ConnState_fields)
next
  assume "hz \<noteq> 0 \<and> 1 / hz \<le> clock (env w) (steps w)"
  then show "\<exists>w1 s1 tl. push_telem_if_due w (ConnState fd a) hz = Inr (w1, s1)
           \<and> trace w1 = trace w @ Sendall fd (Telemetry_line (telem w1))
                                    (\<not> send_fails (env w) (steps w + 3)) # tl
           \<and> (\<not> send_fails (env w) (steps w + 3) \<longrightarrow>
                last_push s1 = clock (env w) (steps w))"
    using first_push [of hz w fd a] by blast
next
  assume clk: "\<forall>n. 1 / 3 \<le> clock (env w) n"
  let ?w1 = "accept w fd a"
  have sel: "map snd (sel_map ?w1) = map snd (sel_map w) @ [ConnState fd a]"
    and tr: "trace ?w1 = trace w @ [Print (Log_connected a)]"
    and e1: "env ?w1 = env w"
    by (simp_all add: accept_def Let_def)
  from push_all_frame [of ?w1 "map snd (sel_map w)"] obtain w2 where
    p2: "push_all ?w1 (map snd (sel_map w)) = Inr w2" and e2: "env w2 = env ?w1"
    and pf: "prefix (trace ?w1) (trace w2)"
    by blast
  from pf obtain pre where pre: "trace w2 = trace ?w1 @ pre"
    by (auto simp: prefix_def)
  have "1 / 3 \<le> clock (env w2) (steps w2)"
    using clk e1 e2 by simp
  with first_push [of 3 w2 fd a] obtain w3 s3 tl where
    p3: "push_telem_if_due w2 (ConnState fd a) 3 = Inr (w3, s3)"
    and t3: "trace w3 = trace w2 @ Sendall fd (Telemetry_line (telem w3))
                              (\<not> send_fails (env w2) (steps w2 + 3)) # tl"
    by auto
  have "loop_iteration w [Ready_listen fd a] = Inr (store w3 s3)"
    by (simp add: loop_iteration_def Let_def sel push_all_append p2 p3)
  moreover have "trace (store w3 s3) = trace w @ Print (Log_connected a) # pre
      @ Sendall fd (Telemetry_line (telem w3)) (\<not> send_fails (env w2) (steps w2 + 3)) # tl"
    by (simp add: t3 pre tr)
  ultimately show "\<exists>w1 pre p ok tl. loop_iteration w [Ready_listen fd a] = Inr w1
           \<and> trace w1 = trace w @ Print (Log_connected a) # pre
                          @ Sendall fd (Telemetry_line p) ok # tl"
    by blast
qed

lemma env0_fields:
  "clock env0 n = 1700000000 + of_nat n / 10" "\<not> send_fails env0 n"
  "thermal env0 n = Some 45000"
  by (simp_all add: env0_def)

theorem first_push_is_due_witness:
  "(3 :: real) \<noteq> 0
   \<and> 1 / 3 \<le> clock (env (module_init env0 True)) (steps (module_init env0 True))
   \<and> (\<forall>n. 1 / 3 \<le> clock (env (module_init env0 True)) n)
   \<and> (\<exists>w1 s1 tl. push_telem_if_due (module_init env0 True) (ConnState 5 1) 3 = Inr (w1, s1)
         \<and> trace w1 = Sendall 5 (Telemetry_line (telem w1)) True # tl
         \<and> last_push s1 = 1700000000 + 2 / 10)
   \<and> (\<exists>w1 pre p ok tl. loop_iteration (module_init env0 True) [Ready_listen 5 1] = Inr w1
         \<and> trace w1 = Print (Log_connected 1) # pre @ Sendall 5 (Telemetry_line p) ok # tl)"
proof -
  have e: "env (module_init env0 True) = env0" "steps (module_init env0 True) = 2"
    "trace (module_init env0 True) = []"
    by (simp_all add: module_init_def)
  have h1: "(3 :: real) \<noteq> 0" by simp
  have h3: "\<forall>n. 1 / 3 \<le> clock (env (module_init env0 True)) n"
    by (simp add: e env0_fields)
  then have h2: "1 / 3 \<le> clock (env (module_init env0 True)) (steps (module_init env0 True))"
    by blast
  note t = first_push_is_due [of 5 1 3 "module_init env0 True"]
  from t h1 h2 have c1: "\<exists>w1 s1 tl. push_telem_if_due (module_init env0 True) (ConnState 5 1) 3 = Inr (w1, s1)
         \<and> trace w1 = Sendall 5 (Telemetry_line (telem w1)) True # tl
         \<and> last_push s1 = 1700000000 + 2 / 10"
    by (simp add: e env0_fields)
  from t h3 have c2: "\<exists>w1 pre p ok tl. loop_iteration (module_init env0 True) [Ready_listen 5 1] = Inr w1
         \<and> trace w1 = Print (Log_connected 1) # pre @ Sendall 5 (Telemetry_line p) ok # tl"
    by (simp add: e)
  from h1 h2 h3 c1 c2 show ?thesis by blast
qed

section \<open>The odometer\<close>

text \<open>
  No connection is due a push: at the clock reading each registered connection will
  see in turn, less than a third of a second has passed since its last push.
\<close>

fun not_due_from :: "environment \<Rightarrow> nat \<Rightarrow> conn_state list \<Rightarrow> bool" where
  "not_due_from e n [] = True"
| "not_due_from e n (s # ss) = (clock e n - last_push s < 1 / 3 \<and> not_due_from e (Suc n) ss)"

definition none_due :: "world \<Rightarrow> bool" where
  "none_due w = not_due_from (env w) (steps w) (map snd (sel_map w))"

text \<open>
  What a step may do to the odometer: the time of the last sample stays, and the
  accumulated distance stays unless a \<open>resetodo\<close> command was dispatched, in which
  case it is 0.
\<close>

definition odo_frame :: "world \<Rightarrow> world \<Rightarrow> bool" where
  "odo_frame w w1 \<longleftrightarrow>
     last_telem_time w1 = last_telem_time w \<and> env w1 = env w
     \<and> (\<exists>tl. trace w1 = trace w @ tl
           \<and> (distance_m (telem w1) = distance_m (telem w)
                \<or> distance_m (telem w1) = 0 \<and> Print (Log_cmd (u ''resetodo'')) \<in> set tl))"

lemma odo_frame_refl [simp]: "odo_frame w w"
  by (simp add: odo_frame_def)

lemma odo_frame_trans:
  assumes "odo_frame w w1" and "odo_frame w1 w2"
  shows "odo_frame w w2"
proof -
  from assms(1) obtain tl where
    a: "last_telem_time w1 = last_telem_time w" "env w1 = env w" "trace w1 = trace w @ tl"
      "distance_m (telem w1) = distance_m (telem w)
       \<or> distance_m (telem w1) = 0 \<and> Print (Log_cmd (u ''resetodo'')) \<in> set tl"
    unfolding odo_frame_def by blast
  from assms(2) obtain tl2 where
    b: "last_telem_time w2 = last_telem_time w1" "env w2 = env w1" "trace w2 = trace w1 @ tl2"
      "distance_m (telem w2) = distance_m (telem w1)
       \<or> distance_m (telem w2) = 0 \<and> Print (Log_cmd (u ''resetodo'')) \<in> set tl2"
    unfolding odo_frame_def by blast
  have "trace w2 = trace w @ (tl @ tl2)"
    using a(3) b(3) by simp
  moreover have "distance_m (telem w2) = distance_m (telem w)
       \<or> distance_m (telem w2) = 0 \<and> Print (Log_cmd (u ''resetodo'')) \<in> set (tl @ tl2)"
    using a(4) b(4) by auto
  ultimately show ?thesis
    unfolding odo_frame_def using a(1,2) b(1,2) by metis
qed

lemma odo_frame_same:
  "last_telem_time w1 = last_telem_time w \<Longrightarrow> env w1 = env w \<Longrightarrow> telem w1 = telem w
   \<Longrightarrow> prefix (trace w) (trace w1) \<Longrightarrow> odo_frame w w1"
  by (auto simp: odo_frame_def prefix_def)

lemma odo_frame_apply_cmd: "odo_frame w (apply_cmd w cmd)"
  by (simp add: odo_frame_def apply_cmd_eq Let_def)

lemma odo_frame_send_ack: "odo_frame w (send_ack w s cmd)"
  by (simp add: odo_frame_same prefix_send_ack)

lemma odo_frame_emit: "odo_frame w (emit e w)"
  by (simp add: odo_frame_same)

lemma odo_frame_close_conn: "odo_frame w (fst (close_conn w s))"
  by (simp add: odo_frame_same close_conn_prefix)

lemma odo_frame_store: "odo_frame w w1 \<Longrightarrow> odo_frame w (store w1 s)"
  by (simp add: odo_frame_def)

lemma odo_frame_service_loop: "odo_frame w (fst (service_loop w s))"
proof (induction w s rule: service_loop.induct)
  case (1 w state)
  show ?case
  proof (cases "py_find (buf_in state) 10 = - 1")
    case True
    then show ?thesis by (subst service_loop.simps) simp
  next
    case nl: False
    show ?thesis
    proof (cases "py_strip (take (nat (py_find (buf_in state) 10)) (buf_in state)) = []")
      case True
      with nl 1(1) show ?thesis by (subst service_loop.simps) simp
    next
      case False
      with nl 1(2) show ?thesis
        by (subst service_loop.simps)
           (simp, meson odo_frame_trans odo_frame_apply_cmd odo_frame_send_ack)
    qed
  qed
qed

lemma odo_frame_service: "odo_frame w (fst (service w s r))"
proof (cases r)
  case (Recv_data chunk)
  then show ?thesis
    using odo_frame_trans [OF odo_frame_emit odo_frame_close_conn]
      odo_frame_trans [OF odo_frame_emit odo_frame_service_loop]
    by (simp add: service_def Let_def)
next
  case Recv_would_block
  then show ?thesis by (simp add: service_def)
next
  case Recv_error
  then show ?thesis
    using odo_frame_trans [OF odo_frame_emit odo_frame_close_conn]
    by (simp add: service_def)
qed

lemma odo_frame_accept: "odo_frame w (accept w fd a)"
  by (simp add: odo_frame_def accept_def Let_def)

lemma odo_frame_select_phase: "odo_frame w (select_phase w ready)"
proof (induction w ready rule: select_phase.induct)
  case (1 w)
  show ?case by simp
next
  case (2 w conn a rs)
  then show ?case
    using odo_frame_trans [OF odo_frame_accept] by simp
next
  case (3 w fd r rs)
  show ?case
  proof (cases "map_of (sel_map w) fd")
    case None
    with 3(1) show ?thesis by simp
  next
    case (Some state)
    obtain w1 s1 where sv: "service w state r = (w1, s1)"
      by (cases "service w state r")
    have "odo_frame w w1"
      using odo_frame_service [of w state r] sv by simp
    then have "odo_frame w (store w1 s1)"
      by (rule odo_frame_store)
    moreover have "odo_frame (store w1 s1) (select_phase (store w1 s1) rs)"
      using 3(2) [OF Some sv [symmetric]] by simp
    ultimately show ?thesis
      using Some sv by (simp add: odo_frame_trans [where ?w1.0 = "store w1 s1"])
  qed
qed

lemma push_all_none_due:
  "not_due_from (env w) (steps w) ss \<Longrightarrow>
   \<exists>w1. push_all w ss = Inr w1 \<and> telem w1 = telem w
     \<and> last_telem_time w1 = last_telem_time w \<and> trace w1 = trace w \<and> env w1 = env w
     \<and> steps w1 = steps w + length ss"
proof (induction ss arbitrary: w)
  case Nil
  show ?case by simp
next
  case (Cons s ss)
  let ?w1 = "store (w\<lparr>steps := Suc (steps w)\<rparr>) s"
  from Cons.prems have nd: "\<not> 1 / 3 \<le> clock (env w) (steps w) - last_push s"
    and rest: "not_due_from (env ?w1) (steps ?w1) ss"
    by simp_all
  from Cons.IH [OF rest] obtain w2 where
    "push_all ?w1 ss = Inr w2" "telem w2 = telem ?w1" "last_telem_time w2 = last_telem_time ?w1"
    "trace w2 = trace ?w1" "env w2 = env ?w1" "steps w2 = steps ?w1 + length ss"
    by blast
  with nd show ?case
    by (simp add: push_telem_if_due_eq)
qed

text \<open>
  Claim C9. In a loop iteration in which no registered connection is due a push
  (in particular when none is registered), the time of the last sample is unchanged
  and the accumulated distance is unchanged too, whatever the speed, unless a
  \<open>resetodo\<close> command was dispatched in that iteration, which leaves it at 0.
\<close>

theorem odometer_frame:
  assumes "none_due (select_phase w ready)"
  shows "\<exists>w1. loop_iteration w ready = Inr w1
     \<and> last_telem_time w1 = last_telem_time w
     \<and> (distance_m (telem w1) \<noteq> distance_m (telem w) \<longrightarrow>
          distance_m (telem w1) = 0
          \<and> (\<exists>tl. trace w1 = trace w @ tl \<and> Print (Log_cmd (u ''resetodo'')) \<in> set tl))
     \<and> (ready = [] \<longrightarrow> distance_m (telem w1) = distance_m (telem w))"
proof -
  let ?w0 = "select_phase w ready"
  have f: "odo_frame w ?w0"
    by (rule odo_frame_select_phase)
  from push_all_none_due [of ?w0 "map snd (sel_map ?w0)"] assms obtain w1 where
    p: "push_all ?w0 (map snd (sel_map ?w0)) = Inr w1" "telem w1 = telem ?w0"
      "last_telem_time w1 = last_telem_time ?w0" "trace w1 = trace ?w0"
    by (auto simp: none_due_def)
  have "loop_iteration w ready = Inr w1"
    using p by (simp add: loop_iteration_def Let_def)
  moreover have "last_telem_time w1 = last_telem_time w"
    using f p by (simp add: odo_frame_def)
  moreover have "distance_m (telem w1) \<noteq> distance_m (telem w) \<longrightarrow>
          distance_m (telem w1) = 0
          \<and> (\<exists>tl. trace w1 = trace w @ tl \<and> Print (Log_cmd (u ''resetodo'')) \<in> set tl)"
    using f p by (auto simp: odo_frame_def)
  moreover have "ready = [] \<longrightarrow> distance_m (telem w1) = distance_m (telem w)"
    using p by auto
  ultimately show ?thesis by blast
qed

section \<open>Heartbeats without a watchdog\<close>

text \<open>The driver calls of a trace, in order.\<close>

fun px_calls :: "event list \<Rightarrow> hw_call list" where
  "px_calls [] = []"
| "px_calls (Px c # es) = c # px_calls es"
| "px_calls (e # es) = px_calls es"

text \<open>
  Two schedules of ready descriptors, one list per loop iteration. In both a client
  connects and sends \<open>forward\<close>. In the first it then stays connected and silent; in
  the second the peer closes the connection.
\<close>

definition forward_line :: "byte list" where
  "forward_line = [0x66, 0x6F, 0x72, 0x77, 0x61, 0x72, 0x64, 0x0A]"

definition client_stalls :: "ready list list" where
  "client_stalls = [[Ready_listen 5 1], [Ready_client 5 (Recv_data forward_line)]]"

definition client_leaves :: "ready list list" where
  "client_leaves = client_stalls @ [[Ready_client 5 (Recv_data [])]]"

lemma px_calls_append [simp]: "px_calls (xs @ ys) = px_calls xs @ px_calls ys"
  by (induction xs rule: px_calls.induct) simp_all

lemma px_calls_mem: "Px c \<in> set es \<longleftrightarrow> c \<in> set (px_calls es)"
  by (induction es rule: px_calls.induct) auto

lemma run_append:
  "run w (xs @ ys) = (case run w xs of Inl e \<Rightarrow> Inl e | Inr w1 \<Rightarrow> run w1 ys)"
  by (induction xs arbitrary: w) (auto split: sum.splits)

lemma store_keys [simp]: "map fst (sel_map (store w s)) = map fst (sel_map w)"
  by (simp add: store_def case_prod_beta cong: if_cong)

lemma push_step_quiet:
  assumes "\<forall>n. \<not> send_fails (env w) n"
  shows "\<exists>w1 s1. push_telem_if_due w s 3 = Inr (w1, s1)
     \<and> env w1 = env w \<and> px_calls (trace w1) = px_calls (trace w)
     \<and> sel_map w1 = sel_map w \<and> Suc (steps w) \<le> steps w1"
  using assms by (simp add: push_telem_if_due_eq)

lemma push_all_quiet:
  assumes "\<forall>n. \<not> send_fails (env w) n"
  shows "\<exists>w1. push_all w ss = Inr w1
     \<and> direction (telem w1) = direction (telem w)
     \<and> env w1 = env w \<and> px_calls (trace w1) = px_calls (trace w)
     \<and> map fst (sel_map w1) = map fst (sel_map w) \<and> steps w + length ss \<le> steps w1"
  using assms
proof (induction ss arbitrary: w)
  case Nil
  show ?case by simp
next
  case (Cons s ss)
  from push_step_quiet [OF Cons.prems, of s] obtain w1 s1 where
    p: "push_telem_if_due w s 3 = Inr (w1, s1)" and e: "env w1 = env w"
    and c: "px_calls (trace w1) = px_calls (trace w)" and m: "sel_map w1 = sel_map w"
    and st: "Suc (steps w) \<le> steps w1"
    by blast
  from push_step [of w s] p have d: "direction (telem w1) = direction (telem w)"
    by auto
  have "\<forall>n. \<not> send_fails (env (store w1 s1)) n"
    using Cons.prems e by simp
  from Cons.IH [OF this] obtain w2 where
    "push_all (store w1 s1) ss = Inr w2"
    "direction (telem w2) = direction (telem (store w1 s1))"
    "env w2 = env (store w1 s1)" "px_calls (trace w2) = px_calls (trace (store w1 s1))"
    "map fst (sel_map w2) = map fst (sel_map (store w1 s1))"
    "steps (store w1 s1) + length ss \<le> steps w2"
    by blast
  with p e c m st d show ?case by simp
qed


text \<open>
  Claim C1, as amended. The reactor has no failsafe timer: it keeps no time of the
  last command and a heartbeat compares no elapsed time with a threshold. A
  heartbeat in which no descriptor is ready never fails and leaves direction and
  speed as they were, whatever the clock reads. It calls the driver only when a
  telemetry write fails and the connection is torn down: when no write fails, the
  driver calls made so far are all there are. With no connection registered it
  changes nothing at all.
\<close>

theorem heartbeat_no_failsafe:
  "\<exists>w1. loop_iteration w [] = Inr w1
     \<and> direction (telem w1) = direction (telem w)
     \<and> speed_mps (telem w1) = speed_mps (telem w)
     \<and> (sel_map w = [] \<longrightarrow> w1 = w)
     \<and> ((\<forall>n. \<not> send_fails (env w) n) \<longrightarrow> px_calls (trace w1) = px_calls (trace w))"
proof -
  from push_all_frame [of w "map snd (sel_map w)"] obtain w1 where
    p: "push_all w (map snd (sel_map w)) = Inr w1"
    and d: "direction (telem w1) = direction (telem w)" "speed_mps (telem w1) = speed_mps (telem w)"
    by blast
  have "px_calls (trace w1) = px_calls (trace w)" if "\<forall>n. \<not> send_fails (env w) n"
    using push_all_quiet [OF that, of "map snd (sel_map w)"] p by auto
  moreover have "w1 = w" if "sel_map w = []"
    using that p by simp
  ultimately show ?thesis
    using p d by (auto simp: loop_iteration_def)
qed

lemma idle_run:
  assumes "\<forall>n. \<not> send_fails (env w) n"
  shows "\<exists>w1. run w (replicate n []) = Inr w1
     \<and> direction (telem w1) = direction (telem w)
     \<and> env w1 = env w \<and> px_calls (trace w1) = px_calls (trace w)
     \<and> map fst (sel_map w1) = map fst (sel_map w)
     \<and> steps w + n * length (sel_map w) \<le> steps w1"
  using assms
proof (induction n arbitrary: w)
  case 0
  show ?case by simp
next
  case (Suc n)
  from push_all_quiet [OF Suc.prems, of "map snd (sel_map w)"] obtain w1 where
    p: "push_all w (map snd (sel_map w)) = Inr w1"
    and f: "direction (telem w1) = direction (telem w)" "env w1 = env w"
      "px_calls (trace w1) = px_calls (trace w)" "map fst (sel_map w1) = map fst (sel_map w)"
      "steps w + length (sel_map w) \<le> steps w1"
    by auto
  have l: "length (sel_map w1) = length (sel_map w)"
    using f(4) by (metis length_map)
  have "\<forall>n. \<not> send_fails (env w1) n"
    using Suc.prems f(2) by simp
  from Suc.IH [OF this] obtain w2 where
    "run w1 (replicate n []) = Inr w2" "direction (telem w2) = direction (telem w1)"
    "env w2 = env w1" "px_calls (trace w2) = px_calls (trace w1)"
    "map fst (sel_map w2) = map fst (sel_map w1)"
    "steps w1 + n * length (sel_map w1) \<le> steps w2"
    by blast
  with p f l show ?case
    by (simp add: loop_iteration_def)
qed

text \<open>
  The states the two schedules lead to from a fresh start on a healthy network:
  connected and pushed to once; commanded \<open>forward\<close>; pushed to again; and, in the
  second schedule, torn down after the peer closed.
\<close>

definition conn1 :: conn_state where
  "conn1 = (ConnState 5 1)\<lparr>last_push := clock env0 2\<rparr>"

definition world_connected :: world where
  "world_connected = store (pushed world1 (ConnState 5 1)) conn1"

definition world_commanded :: world where
  "world_commanded =
     store (apply_cmd
              (send_ack (emit (Print (Log_rx 1 (u ''forward'' @ [10]))) world_connected)
                 conn1 (u ''forward''))
              (u ''forward'')) conn1"

definition world_forward :: world where
  "world_forward = store (pushed world_commanded conn1) (conn1\<lparr>last_push := clock env0 7\<rparr>)"

definition world_left :: world where
  "world_left =
     hw_safe_stop (emit (Sock_close 5)
       ((emit (Print (Log_disconnected 1)) world_forward)\<lparr>sel_map := []\<rparr>))"

lemma conn1_fields:
  "sock conn1 = 5" "addr conn1 = 1" "buf_in conn1 = []" "\<not> closed conn1"
  "last_push conn1 = clock env0 2"
  by (simp_all add: conn1_def ConnState_def)

lemma world_connected_fields:
  "sel_map world_connected = [(5, conn1)]" "env world_connected = env0"
  "steps world_connected = 6" "px_present world_connected"
  "px_calls (trace world_connected) = []"
  by (simp_all add: world_connected_def store_def world1_fields ConnState_fields conn1_fields)

lemma service_loop_forward:
  "service_loop w (st\<lparr>buf_in := u ''forward'' @ [10]\<rparr>) =
     (apply_cmd (send_ack w (st\<lparr>buf_in := []\<rparr>) (u ''forward'')) (u ''forward''),
      st\<lparr>buf_in := []\<rparr>)"
proof -
  have n: "10 \<notin> set (u ''forward'')" by (simp add: u_def)
  show ?thesis
    using service_loop_line [of "st\<lparr>buf_in := u ''forward'' @ [10]\<rparr>" "u ''forward''" "[]" w] n
    by (simp add: strip_lit service_loop_no_nl)
qed

lemma forward_line_text:
  "forward_line \<noteq> []" "utf8_decode_ignore forward_line = u ''forward'' @ [10]"
  "replace_crlf (u ''forward'' @ [10]) = u ''forward'' @ [10]"
  by (simp_all add: forward_line_def u_def)

lemma world_commanded_fields:
  "sel_map world_commanded = [(5, conn1)]" "env world_commanded = env0"
  "steps world_commanded = 7" "px_present world_commanded"
  "direction (telem world_commanded) = u ''forward''"
  "px_calls (trace world_commanded) = [Px_forward 80]"
  by (simp_all add: world_commanded_def store_def world_connected_fields apply_cmd_eq
      send_ack_eq strip_lit Let_def conn1_fields CRUISE_SPEED_def env0_fields)

lemma world_forward_fields:
  "sel_map world_forward = [(5, conn1\<lparr>last_push := clock env0 7\<rparr>)]" "env world_forward = env0"
  "steps world_forward = 11" "px_present world_forward"
  "direction (telem world_forward) = u ''forward''"
  "px_calls (trace world_forward) = [Px_forward 80]"
  by (simp_all add: world_forward_def store_def world_commanded_fields conn1_fields)

lemma world_left_fields:
  "sel_map world_left = []" "env world_left = env0"
  "direction (telem world_left) = u ''forward''"
  "px_calls (trace world_left) = [Px_forward 80, Px_stop, Px_set_dir_servo_angle 0]"
  by (simp_all add: world_left_def hw_safe_stop_eq world_forward_fields)

lemma reach_connected:
  "loop_iteration (module_init env0 True) [Ready_listen 5 1] = Inr world_connected"
proof -
  have s: "select_phase (module_init env0 True) [Ready_listen 5 1] = world1"
    by (simp add: world1_def)
  show ?thesis
    by (simp only: loop_iteration_def Let_def s)
       (simp add: world1_fields push_telem_if_due_eq env0_fields ConnState_fields
          world_connected_def conn1_def)
qed

lemma reach_forward:
  "loop_iteration world_connected [Ready_client 5 (Recv_data forward_line)] = Inr world_forward"
proof -
  have c: "conn1\<lparr>buf_in := []\<rparr> = conn1"
    by (simp add: conn1_def ConnState_def)
  have s: "select_phase world_connected [Ready_client 5 (Recv_data forward_line)]
      = world_commanded"
    by (simp add: world_connected_fields service_def forward_line_text Let_def conn1_fields
        service_loop_forward world_commanded_def c)
  show ?thesis
    by (simp only: loop_iteration_def Let_def s)
       (simp add: world_commanded_fields push_telem_if_due_eq env0_fields conn1_fields
          world_forward_def)
qed

lemma reach_left:
  "loop_iteration world_forward [Ready_client 5 (Recv_data [])] = Inr world_left"
  by (simp add: loop_iteration_def Let_def world_forward_fields service_def close_conn_def
      conn1_fields world_left_def store_def hw_safe_stop_eq)

lemma run_client_stalls: "run (module_init env0 True) client_stalls = Inr world_forward"
  by (simp only: client_stalls_def run.simps reach_connected reach_forward sum.case)

lemma run_client_leaves: "run (module_init env0 True) client_leaves = Inr world_left"
  by (simp only: client_leaves_def run_append run_client_stalls run.simps reach_left sum.case)


theorem heartbeat_no_failsafe_witness:
  "run (module_init env0 True) client_leaves = Inr world_left
   \<and> sel_map world_left = []
   \<and> (\<forall>n. \<not> send_fails (env world_left) n)
   \<and> loop_iteration world_left [] = Inr world_left
   \<and> run (module_init env0 True) client_stalls = Inr world_forward
   \<and> (\<forall>n. \<not> send_fails (env world_forward) n)
   \<and> \<not> isl (loop_iteration world_forward [])
   \<and> direction (telem (projr (loop_iteration world_forward []))) = u ''forward''
   \<and> px_calls (trace (projr (loop_iteration world_forward []))) = [Px_forward 80]"
proof -
  have a: "sel_map world_left = []" and b: "\<forall>n. \<not> send_fails (env world_left) n"
    and c: "\<forall>n. \<not> send_fails (env world_forward) n"
    by (simp_all add: world_left_fields world_forward_fields env0_fields)
  from heartbeat_no_failsafe [of world_left] a
  have l: "loop_iteration world_left [] = Inr world_left"
    by auto
  from heartbeat_no_failsafe [of world_forward] c obtain w1 where
    "loop_iteration world_forward [] = Inr w1" "direction (telem w1) = direction (telem world_forward)"
    "px_calls (trace w1) = px_calls (trace world_forward)"
    by auto
  then have f: "\<not> isl (loop_iteration world_forward [])"
    "direction (telem (projr (loop_iteration world_forward []))) = u ''forward''"
    "px_calls (trace (projr (loop_iteration world_forward []))) = [Px_forward 80]"
    by (simp_all add: world_forward_fields)
  from a b c l f run_client_leaves run_client_stalls show ?thesis
    by blast
qed

text \<open>
  A client connects, sends \<open>forward\<close> and falls silent but stays connected. Twenty
  heartbeats later the clock has advanced by more than a second since the command,
  direction is still \<open>forward\<close> and the driver has never been told to stop. In the
  other schedule the peer closes the connection: teardown stops the motors, but
  with no connection left twenty heartbeats change nothing and direction remains
  \<open>forward\<close>.
\<close>

theorem failsafe_counterexample:
  "\<not> isl (run (module_init env0 True) (client_stalls @ replicate 20 []))
   \<and> 1 < clock env0 (steps (projr (run (module_init env0 True) (client_stalls @ replicate 20 []))))
         - clock env0 (steps (projr (run (module_init env0 True) client_stalls)))
   \<and> direction (telem (projr (run (module_init env0 True) (client_stalls @ replicate 20 []))))
       = u ''forward''
   \<and> Px Px_stop
       \<notin> set (trace (projr (run (module_init env0 True) (client_stalls @ replicate 20 []))))
   \<and> run (module_init env0 True) (client_leaves @ replicate 20 [])
       = run (module_init env0 True) client_leaves
   \<and> \<not> isl (run (module_init env0 True) client_leaves)
   \<and> sel_map (projr (run (module_init env0 True) client_leaves)) = []
   \<and> direction (telem (projr (run (module_init env0 True) client_leaves))) = u ''forward''"
proof -
  have c: "\<forall>n. \<not> send_fails (env world_forward) n"
    by (simp add: world_forward_fields env0_fields)
  from idle_run [OF c, of 20] obtain w1 where
    r: "run world_forward (replicate 20 []) = Inr w1"
    and d: "direction (telem w1) = u ''forward''"
    and p: "px_calls (trace w1) = [Px_forward 80]"
    and st: "31 \<le> steps w1"
    by (auto simp: world_forward_fields)
  have R: "run (module_init env0 True) (client_stalls @ replicate 20 []) = Inr w1"
    by (simp add: run_append run_client_stalls r)
  have t: "1 < clock env0 (steps w1) - clock env0 (steps world_forward)"
    using st by (simp add: env0_fields world_forward_fields)
  have x: "Px Px_stop \<notin> set (trace w1)"
    by (simp add: px_calls_mem p)
  have i: "loop_iteration world_left [] = Inr world_left"
    by (simp add: loop_iteration_def world_left_fields)
  have "run world_left (replicate n []) = Inr world_left" for n
    by (induction n) (simp_all add: i)
  then have L: "run (module_init env0 True) (client_leaves @ replicate 20 [])
      = run (module_init env0 True) client_leaves"
    by (simp add: run_append run_client_leaves)
  show ?thesis
    using d t x L by (simp add: R run_client_stalls run_client_leaves world_left_fields)
qed

text \<open>
  A healthy network on a fast machine: the clock advances by a hundredth of a second
  per call, so that a heartbeat can find a connected client not yet due.
\<close>

definition env_slow :: environment where
  "env_slow = env0\<lparr>clock := (\<lambda>n. 1700000000 + of_nat n / 100)\<rparr>"

lemma env_slow_fields:
  "clock env_slow n = 1700000000 + of_nat n / 100" "\<not> send_fails env_slow n"
  by (simp_all add: env_slow_def env0_def)

lemma run_client_stalls_slow:
  "\<exists>w. run (module_init env_slow True) client_stalls = Inr w
     \<and> sel_map w = [(5, (ConnState 5 1)\<lparr>last_push := clock env_slow 2\<rparr>)]
     \<and> env w = env_slow \<and> steps w = 8 \<and> speed_mps (telem w) = 0.55"
proof -
  define c where "c = (ConnState 5 1)\<lparr>last_push := clock env_slow 2\<rparr>"
  define w0 where "w0 = accept (module_init env_slow True) 5 1"
  define w1 where "w1 = store (pushed w0 (ConnState 5 1)) c"
  define w2 where "w2 = store (apply_cmd
              (send_ack (emit (Print (Log_rx 1 (u ''forward'' @ [10]))) w1) c (u ''forward''))
              (u ''forward'')) c"
  define w3 where "w3 = store (w2\<lparr>steps := Suc (steps w2)\<rparr>) c"
  have cf: "sock c = 5" "addr c = 1" "buf_in c = []" "last_push c = clock env_slow 2"
    "c\<lparr>buf_in := []\<rparr> = c"
    by (simp_all add: c_def ConnState_def)
  have f0: "sel_map w0 = [(5, ConnState 5 1)]" "env w0 = env_slow" "steps w0 = 2"
    by (simp_all add: w0_def accept_def module_init_def Let_def)
  have s0: "select_phase (module_init env_slow True) [Ready_listen 5 1] = w0"
    by (simp add: w0_def)
  have i1: "loop_iteration (module_init env_slow True) [Ready_listen 5 1] = Inr w1"
    by (simp only: loop_iteration_def Let_def s0)
       (simp add: f0 push_telem_if_due_eq env_slow_fields ConnState_fields w1_def c_def)
  have f1: "sel_map w1 = [(5, c)]" "env w1 = env_slow" "steps w1 = 6"
    by (simp_all add: w1_def store_def f0 ConnState_fields cf)
  have s1: "select_phase w1 [Ready_client 5 (Recv_data forward_line)] = w2"
    by (simp add: f1 service_def forward_line_text Let_def cf service_loop_forward w2_def)
  have f2: "sel_map w2 = [(5, c)]" "env w2 = env_slow" "steps w2 = 7"
    "speed_mps (telem w2) = 0.55"
    by (simp_all add: w2_def store_def f1 cf apply_cmd_eq strip_lit Let_def)
  have i2: "loop_iteration w1 [Ready_client 5 (Recv_data forward_line)] = Inr w3"
    by (simp only: loop_iteration_def Let_def s1)
       (simp add: f2 push_telem_if_due_eq env_slow_fields cf w3_def)
  have f3: "sel_map w3 = [(5, c)]" "env w3 = env_slow" "steps w3 = 8"
    "speed_mps (telem w3) = 0.55"
    by (simp_all add: w3_def store_def f2 cf)
  have "run (module_init env_slow True) client_stalls = Inr w3"
    by (simp only: client_stalls_def run.simps i1 i2 sum.case)
  with f3 show ?thesis
    by (simp add: c_def)
qed

theorem odometer_frame_witness:
  "\<not> isl (run (module_init env_slow True) client_stalls)
   \<and> sel_map (projr (run (module_init env_slow True) client_stalls)) \<noteq> []
   \<and> speed_mps (telem (projr (run (module_init env_slow True) client_stalls))) = 0.55
   \<and> none_due (select_phase (projr (run (module_init env_slow True) client_stalls)) [])
   \<and> \<not> isl (loop_iteration (projr (run (module_init env_slow True) client_stalls)) [])
   \<and> distance_m (telem (projr (loop_iteration
          (projr (run (module_init env_slow True) client_stalls)) [])))
       = distance_m (telem (projr (run (module_init env_slow True) client_stalls)))
   \<and> last_telem_time (projr (loop_iteration
          (projr (run (module_init env_slow True) client_stalls)) []))
       = last_telem_time (projr (run (module_init env_slow True) client_stalls))"
proof -
  from run_client_stalls_slow obtain w where
    r: "run (module_init env_slow True) client_stalls = Inr w"
    and f: "sel_map w = [(5, (ConnState 5 1)\<lparr>last_push := clock env_slow 2\<rparr>)]"
      "env w = env_slow" "steps w = 8" "speed_mps (telem w) = 0.55"
    by blast
  have nd: "none_due (select_phase w [])"
    by (simp add: none_due_def f env_slow_fields)
  from odometer_frame [OF nd] obtain w1 where
    "loop_iteration w [] = Inr w1" "last_telem_time w1 = last_telem_time w"
    "distance_m (telem w1) = distance_m (telem w)"
    by auto
  with nd f show ?thesis
    by (simp add: r)
qed

section \<open>Framing across reads\<close>

text \<open>
  A line of UTF-8 text: \<open>for\<close>, the letter U+00E9 (the two bytes C3 A9), \<open>ward\<close>
  and a line feed; whole, and cut between those two bytes; and the schedules that
  deliver it to a new client in one read and in two.
\<close>

definition stream_whole :: "byte list" where
  "stream_whole = [0x66, 0x6F, 0x72, 0xC3, 0xA9, 0x77, 0x61, 0x72, 0x64, 0x0A]"

definition stream_part1 :: "byte list" where
  "stream_part1 = [0x66, 0x6F, 0x72, 0xC3]"

definition stream_part2 :: "byte list" where
  "stream_part2 = [0xA9, 0x77, 0x61, 0x72, 0x64, 0x0A]"

definition one_read :: "ready list list" where
  "one_read = [[Ready_listen 5 1], [Ready_client 5 (Recv_data stream_whole)]]"

definition two_reads :: "ready list list" where
  "two_reads = [[Ready_listen 5 1], [Ready_client 5 (Recv_data stream_part1)],
                [Ready_client 5 (Recv_data stream_part2)]]"

lemma dispatched_append [simp]: "dispatched (xs @ ys) = dispatched xs @ dispatched ys"
  by (induction xs rule: dispatched.induct) simp_all

lemma push_step_dispatched:
  "\<exists>w1 s1. push_telem_if_due w s 3 = Inr (w1, s1) \<and> dispatched (trace w1) = dispatched (trace w)"
proof (cases "closed s")
  case True
  then show ?thesis
    by (simp add: push_telem_if_due_eq close_conn_closed)
next
  case False
  then show ?thesis
    by (simp add: push_telem_if_due_eq close_conn_open hw_safe_stop_eq)
qed

lemma push_all_dispatched:
  "\<exists>w1. push_all w ss = Inr w1 \<and> dispatched (trace w1) = dispatched (trace w)"
proof (induction ss arbitrary: w)
  case Nil
  show ?case by simp
next
  case (Cons s ss)
  from push_step_dispatched [of w s] obtain w1 s1 where
    p: "push_telem_if_due w s 3 = Inr (w1, s1)" "dispatched (trace w1) = dispatched (trace w)"
    by blast
  from Cons.IH [of "store w1 s1"] obtain w2 where
    "push_all (store w1 s1) ss = Inr w2"
    "dispatched (trace w2) = dispatched (trace (store w1 s1))"
    by blast
  with p show ?case by simp
qed

text \<open>What the push phase of an iteration leaves alone, on a network where no write fails.\<close>

lemma loop_iteration_quiet:
  assumes "\<forall>n. \<not> send_fails (env (select_phase w ready)) n"
  shows "\<exists>w1. loop_iteration w ready = Inr w1
     \<and> dispatched (trace w1) = dispatched (trace (select_phase w ready))
     \<and> px_calls (trace w1) = px_calls (trace (select_phase w ready))
     \<and> direction (telem w1) = direction (telem (select_phase w ready))"
proof -
  let ?w0 = "select_phase w ready"
  from push_all_quiet [OF assms, of "map snd (sel_map ?w0)"] obtain w1 where
    p: "push_all ?w0 (map snd (sel_map ?w0)) = Inr w1"
    and f: "direction (telem w1) = direction (telem ?w0)"
      "px_calls (trace w1) = px_calls (trace ?w0)"
    by blast
  from push_all_dispatched [of ?w0 "map snd (sel_map ?w0)"] p
  have "dispatched (trace w1) = dispatched (trace ?w0)"
    by auto
  with p f show ?thesis
    by (simp add: loop_iteration_def Let_def)
qed

lemma stream_text:
  "stream_part1 @ stream_part2 = stream_whole"
  "stream_whole \<noteq> []" "stream_part1 \<noteq> []" "stream_part2 \<noteq> []"
  "utf8_decode_ignore stream_whole = [102, 111, 114, 233, 119, 97, 114, 100] @ [10]"
  "utf8_decode_ignore stream_part1 = u ''for''"
  "utf8_decode_ignore stream_part2 = u ''ward'' @ [10]"
  by (simp_all add: stream_whole_def stream_part1_def stream_part2_def u_def is_cont_def)


lemma service_loop_one_line:
  assumes "10 \<notin> set line" and "py_strip line \<noteq> []"
  shows "service_loop w (st\<lparr>buf_in := line @ [10]\<rparr>) =
     (apply_cmd (send_ack w (st\<lparr>buf_in := []\<rparr>) (py_strip line)) (py_strip line),
      st\<lparr>buf_in := []\<rparr>)"
  using service_loop_line [of "st\<lparr>buf_in := line @ [10]\<rparr>" line "[]" w] assms
  by (simp add: service_loop_no_nl)

lemma world_connected_trace: "dispatched (trace world_connected) = []"
  by (simp add: world_connected_def world1_fields)

text \<open>
  Claim C2. The code decodes each chunk by itself, dropping what does not decode,
  before it appends to the buffer. A read boundary inside a multi-byte character
  therefore loses the character: delivered in one read the line is the command
  \<open>for\<close> U+00E9 \<open>ward\<close>, which is unknown and moves nothing; delivered in two reads
  it is the command \<open>forward\<close>, and the robot drives.
\<close>

theorem split_read_changes_commands:
  "stream_part1 @ stream_part2 = stream_whole
   \<and> \<not> isl (run (module_init env0 True) one_read)
   \<and> \<not> isl (run (module_init env0 True) two_reads)
   \<and> dispatched (trace (projr (run (module_init env0 True) one_read)))
       = [[102, 111, 114, 233, 119, 97, 114, 100]]
   \<and> dispatched (trace (projr (run (module_init env0 True) two_reads))) = [u ''forward'']
   \<and> px_calls (trace (projr (run (module_init env0 True) one_read))) = []
   \<and> px_calls (trace (projr (run (module_init env0 True) two_reads))) = [Px_forward 80]
   \<and> direction (telem (projr (run (module_init env0 True) one_read))) = u ''stop''
   \<and> direction (telem (projr (run (module_init env0 True) two_reads))) = u ''forward''"
proof -
  let ?cmd = "[102, 111, 114, 233, 119, 97, 114, 100] :: pystr"
  have c0: "conn1\<lparr>buf_in := []\<rparr> = conn1"
    by (simp add: conn1_def ConnState_def)
  have dir0: "direction (telem world_connected) = u ''stop''"
    by (simp add: world_connected_def world1_fields)
  \<comment> \<open>one read\<close>
  have k: "10 \<notin> set ?cmd" "py_strip ?cmd = ?cmd" "replace_crlf (?cmd @ [10]) = ?cmd @ [10]"
    by (simp_all add: py_strip_def py_isspace_def)
  have lw: "lower w ?cmd = ?cmd" if "env w = env0" for w
    using that by (simp add: lower_def py_lower_def env0_def)
  define wa where "wa = store (apply_cmd
      (send_ack (emit (Print (Log_rx 1 (?cmd @ [10]))) world_connected) conn1 ?cmd) ?cmd) conn1"
  have sa: "select_phase world_connected [Ready_client 5 (Recv_data stream_whole)] = wa"
    using k service_loop_one_line [of ?cmd]
    by (simp add: world_connected_fields service_def stream_text Let_def conn1_fields c0 wa_def)
  have fa: "env wa = env0" "dispatched (trace wa) = [?cmd]" "px_calls (trace wa) = []"
    "direction (telem wa) = u ''stop''"
    by (simp_all add: wa_def apply_cmd_eq send_ack_eq Let_def k lw world_connected_fields
        world_connected_trace dir0 u_def)
  from loop_iteration_quiet [of world_connected "[Ready_client 5 (Recv_data stream_whole)]",
      unfolded sa]
  obtain w1 where
    i1: "loop_iteration world_connected [Ready_client 5 (Recv_data stream_whole)] = Inr w1"
    and f1: "dispatched (trace w1) = [?cmd]" "px_calls (trace w1) = []"
      "direction (telem w1) = u ''stop''"
    by (auto simp: fa env0_fields)
  have r1: "run (module_init env0 True) one_read = Inr w1"
    by (simp only: one_read_def run.simps reach_connected i1 sum.case)
  \<comment> \<open>two reads\<close>
  define ca where "ca = conn1\<lparr>buf_in := u ''for''\<rparr>"
  define wb where "wb = store (emit (Print (Log_rx 1 (u ''for''))) world_connected) ca"
  define cb where "cb = ca\<lparr>last_push := clock env0 6\<rparr>"
  define wc where "wc = store (pushed wb ca) cb"
  have n3: "10 \<notin> set (u ''for'')" "replace_crlf (u ''for'') = u ''for''"
    by (simp_all add: u_def)
  have caf: "sock ca = 5" "addr ca = 1" "buf_in ca = u ''for''" "last_push ca = clock env0 2"
    by (simp_all add: ca_def conn1_fields)
  have cbf: "sock cb = 5" "addr cb = 1" "buf_in cb = u ''for''"
    by (simp_all add: cb_def caf)
  have sb: "select_phase world_connected [Ready_client 5 (Recv_data stream_part1)] = wb"
    by (simp add: world_connected_fields service_def stream_text Let_def conn1_fields
        service_loop_no_nl wb_def ca_def n3)
  have fb: "sel_map wb = [(5, ca)]" "env wb = env0" "steps wb = 6"
    "dispatched (trace wb) = []" "px_calls (trace wb) = []" "px_present wb"
    "direction (telem wb) = u ''stop''"
    by (simp_all add: wb_def store_def world_connected_fields world_connected_trace caf dir0)
  have i2: "loop_iteration world_connected [Ready_client 5 (Recv_data stream_part1)] = Inr wc"
    by (simp only: loop_iteration_def Let_def sb)
       (simp add: fb push_telem_if_due_eq env0_fields caf wc_def cb_def)
  have fc: "sel_map wc = [(5, cb)]" "env wc = env0" "dispatched (trace wc) = []"
    "px_calls (trace wc) = []" "px_present wc" "direction (telem wc) = u ''stop''"
    by (simp_all add: wc_def store_def fb caf cbf)
  define wd where "wd = store (apply_cmd
      (send_ack (emit (Print (Log_rx 1 (u ''ward'' @ [10]))) wc) (cb\<lparr>buf_in := []\<rparr>)
         (u ''forward'')) (u ''forward'')) (cb\<lparr>buf_in := []\<rparr>)"
  have j: "u ''for'' @ replace_crlf (u ''ward'' @ [10]) = u ''forward'' @ [10]"
    by (simp add: u_def)
  have sd: "select_phase wc [Ready_client 5 (Recv_data stream_part2)] = wd"
    by (simp add: fc service_def stream_text Let_def cbf j service_loop_forward wd_def)
  have fd: "env wd = env0" "dispatched (trace wd) = [u ''forward'']"
    "px_calls (trace wd) = [Px_forward 80]" "direction (telem wd) = u ''forward''"
    by (simp_all add: wd_def apply_cmd_eq send_ack_eq Let_def strip_lit fc CRUISE_SPEED_def)
  from loop_iteration_quiet [of wc "[Ready_client 5 (Recv_data stream_part2)]", unfolded sd]
  obtain w2 where
    i3: "loop_iteration wc [Ready_client 5 (Recv_data stream_part2)] = Inr w2"
    and f2: "dispatched (trace w2) = [u ''forward'']" "px_calls (trace w2) = [Px_forward 80]"
      "direction (telem w2) = u ''forward''"
    by (auto simp: fd env0_fields)
  have r2: "run (module_init env0 True) two_reads = Inr w2"
    by (simp only: two_reads_def run.simps reach_connected i2 i3 sum.case)
  show ?thesis
    by (simp add: r1 r2 f1 f2 stream_text)
qed

section \<open>Framing where no character is cut\<close>

text \<open>
  The complete lines of a text and what follows the last line feed, with the text
  before the first line feed prefixed by \<open>cur\<close>.
\<close>

fun split_lines :: "pystr \<Rightarrow> pystr \<Rightarrow> pystr list \<times> pystr" where
  "split_lines cur [] = ([], cur)"
| "split_lines cur (c # s) =
     (if c = 10 then (cur # fst (split_lines [] s), snd (split_lines [] s))
      else split_lines (cur @ [c]) s)"

text \<open>The commands of a list of lines: trimmed, the empty ones left out.\<close>

definition commands :: "pystr list \<Rightarrow> pystr list" where
  "commands ls = filter (\<lambda>c. c \<noteq> []) (map py_strip ls)"

text \<open>Successive reads on one connection, each followed by \<open>service\<close>.\<close>

fun feed :: "world \<Rightarrow> conn_state \<Rightarrow> byte list list \<Rightarrow> world \<times> conn_state" where
  "feed w st [] = (w, st)"
| "feed w st (c # cs) = (case service w st (Recv_data c) of (w1, st1) \<Rightarrow> feed w1 st1 cs)"

lemma split_lines_acc: "10 \<notin> set cur \<Longrightarrow> split_lines acc (cur @ s) = split_lines (acc @ cur) s"
  by (induction cur arbitrary: acc) simp_all

lemma split_lines_rest_no_nl: "10 \<notin> set cur \<Longrightarrow> 10 \<notin> set (snd (split_lines cur s))"
  by (induction s arbitrary: cur) simp_all

lemma split_lines_append:
  "split_lines cur (x @ y) =
     (fst (split_lines cur x) @ fst (split_lines (snd (split_lines cur x)) y),
      snd (split_lines (snd (split_lines cur x)) y))"
  by (induction x arbitrary: cur) simp_all

lemma commands_append [simp]: "commands (xs @ ys) = commands xs @ commands ys"
  by (simp add: commands_def)

lemma strip_snoc_space: "py_isspace c \<Longrightarrow> py_strip (x @ [c]) = py_strip x"
proof (cases "\<forall>a\<in>set x. py_isspace a")
  case True
  assume c: "py_isspace c"
  from True have "dropWhile py_isspace x = []"
    by (simp add: dropWhile_eq_Nil_conv)
  moreover from True c have "\<forall>a\<in>set (x @ [c]). py_isspace a"
    by simp
  then have "dropWhile py_isspace (x @ [c]) = []"
    by (simp only: dropWhile_eq_Nil_conv)
  ultimately show ?thesis by (simp only: py_strip_def)
next
  case False
  assume c: "py_isspace c"
  from False obtain a where a: "a \<in> set x" "\<not> py_isspace a"
    by auto
  then have "dropWhile py_isspace (x @ [c]) = dropWhile py_isspace x @ [c]"
    by (simp add: dropWhile_append1)
  with c show ?thesis by (simp add: py_strip_def)
qed

text \<open>Replacing CR-LF by LF changes no command and not the remainder.\<close>

lemma split_lines_replace_crlf:
  "map py_strip (fst (split_lines cur (replace_crlf s))) = map py_strip (fst (split_lines cur s))
   \<and> snd (split_lines cur (replace_crlf s)) = snd (split_lines cur s)"
proof (induction s arbitrary: cur rule: replace_crlf.induct)
  case (1 c d s)
  show ?case
  proof (cases "c = 13 \<and> d = 10")
    case True
    have "py_isspace 13" by (simp add: py_isspace_def)
    then have "py_strip (cur @ [13]) = py_strip cur"
      by (rule strip_snoc_space)
    with True "1.IH"(1) [of "[]"] show ?thesis by simp
  next
    case False
    define t where "t = d # s"
    from False have r: "replace_crlf (c # d # s) = c # replace_crlf t"
      by (auto simp: t_def)
    from False "1.IH"(2) [of "[]"] "1.IH"(2) [of "cur @ [c]"]
    have ih: "map py_strip (fst (split_lines [] (replace_crlf t))) = map py_strip (fst (split_lines [] t))"
      "snd (split_lines [] (replace_crlf t)) = snd (split_lines [] t)"
      "map py_strip (fst (split_lines (cur @ [c]) (replace_crlf t))) = map py_strip (fst (split_lines (cur @ [c]) t))"
      "snd (split_lines (cur @ [c]) (replace_crlf t)) = snd (split_lines (cur @ [c]) t)"
      unfolding t_def by blast+
    have "map py_strip (fst (split_lines cur (c # replace_crlf t))) = map py_strip (fst (split_lines cur (c # t)))
      \<and> snd (split_lines cur (c # replace_crlf t)) = snd (split_lines cur (c # t))"
      using ih by simp
    then show ?thesis
      unfolding r unfolding t_def .
  qed
qed simp_all


lemma split_lines_no_nl: "10 \<notin> set b \<Longrightarrow> split_lines [] b = ([], b)"
  using split_lines_acc [of b "[]" "[]"] by simp

lemma split_lines_first:
  "10 \<notin> set line \<Longrightarrow> split_lines [] (line @ 10 # rest) =
     (line # fst (split_lines [] rest), snd (split_lines [] rest))"
  using split_lines_acc [of line "[]" "10 # rest"] by simp

lemma dispatched_handle:
  "dispatched (trace (apply_cmd (send_ack w st c) c)) = dispatched (trace w) @ [lower w (py_strip c)]"
  by (simp add: apply_cmd_eq send_ack_eq Let_def lower_def)

text \<open>The loop of \<open>service\<close> dispatches the commands of the complete lines of the buffer
  and keeps what follows the last line feed.\<close>

lemma service_loop_split:
  "dispatched (trace (fst (service_loop w st)))
     = dispatched (trace w) @ map (lower w) (commands (fst (split_lines [] (buf_in st))))
   \<and> buf_in (snd (service_loop w st)) = snd (split_lines [] (buf_in st))"
proof (induction "length (buf_in st)" arbitrary: w st rule: less_induct)
  case less
  show ?case
  proof (cases "10 \<in> set (buf_in st)")
    case False
    then show ?thesis
      by (simp add: service_loop_no_nl split_lines_no_nl commands_def)
  next
    case True
    then obtain line rest where b: "buf_in st = line @ 10 # rest" "10 \<notin> set line"
      by (meson split_list_first)
    let ?st = "st\<lparr>buf_in := rest\<rparr>"
    have len: "length (buf_in ?st) < length (buf_in st)"
      using b by simp
    have sp: "split_lines [] (buf_in st) = (line # fst (split_lines [] rest), snd (split_lines [] rest))"
      using b by (simp add: split_lines_first)
    show ?thesis
    proof (cases "py_strip line = []")
      case True
      with less [OF len, of w] service_loop_line [OF b, of w] sp show ?thesis
        by (simp add: commands_def)
    next
      case False
      let ?w = "apply_cmd (send_ack w ?st (py_strip line)) (py_strip line)"
      have l: "lower ?w = lower w"
        by (rule ext) (simp add: lower_def)
      from less [OF len, of ?w] service_loop_line [OF b, of w] sp False l show ?thesis
        by (simp add: commands_def dispatched_handle)
    qed
  qed
qed

lemma service_loop_env: "env (fst (service_loop w st)) = env w"
  using service_loop_frame [of w st] by simp

lemma close_conn_dispatched:
  "dispatched (trace (fst (close_conn w st))) = dispatched (trace w)
   \<and> buf_in (snd (close_conn w st)) = buf_in st \<and> env (fst (close_conn w st)) = env w"
  by (cases "closed st") (simp_all add: close_conn_closed close_conn_open hw_safe_stop_eq)

text \<open>One read, in terms of the text received.\<close>

lemma service_split:
  assumes "10 \<notin> set (buf_in st)"
  shows "dispatched (trace (fst (service w st (Recv_data chunk))))
     = dispatched (trace w) @
       map (lower w) (commands (fst (split_lines [] (buf_in st @ utf8_decode_ignore chunk))))
   \<and> buf_in (snd (service w st (Recv_data chunk)))
     = snd (split_lines [] (buf_in st @ utf8_decode_ignore chunk))
   \<and> env (fst (service w st (Recv_data chunk))) = env w"
proof (cases "chunk = []")
  case True
  with assms show ?thesis
    by (simp add: service_def close_conn_dispatched emit_def split_lines_no_nl commands_def)
next
  case False
  let ?s = "utf8_decode_ignore chunk"
  let ?w = "emit (Print (Log_rx (addr st) ?s)) w"
  let ?st = "st\<lparr>buf_in := buf_in st @ replace_crlf ?s\<rparr>"
  have sv: "service w st (Recv_data chunk) = service_loop ?w ?st"
    using False by (simp add: service_def Let_def)
  have l: "lower ?w = lower w"
    by (rule ext) (simp add: lower_def emit_def)
  have d: "dispatched (trace ?w) = dispatched (trace w)"
    by (simp add: emit_def)
  have a: "split_lines [] (buf_in st @ t) = split_lines (buf_in st) t" for t
    using split_lines_acc [OF assms, of "[]" t] by simp
  have k: "commands (fst (split_lines [] (buf_in st @ replace_crlf ?s)))
             = commands (fst (split_lines [] (buf_in st @ ?s)))"
    "snd (split_lines [] (buf_in st @ replace_crlf ?s)) = snd (split_lines [] (buf_in st @ ?s))"
    using split_lines_replace_crlf [of "buf_in st" ?s] by (simp_all add: a commands_def)
  from service_loop_split [of ?w ?st] service_loop_env [of ?w ?st] show ?thesis
    by (simp add: sv l d k)
qed

lemma service_buf_no_nl:
  "10 \<notin> set (buf_in st) \<Longrightarrow> 10 \<notin> set (buf_in (snd (service w st (Recv_data chunk))))"
  using split_lines_rest_no_nl [of "[]" "buf_in st @ utf8_decode_ignore chunk"]
  by (simp add: service_split)

text \<open>Several reads, in terms of the texts received.\<close>

lemma feed_split:
  "10 \<notin> set (buf_in st) \<Longrightarrow>
   dispatched (trace (fst (feed w st cs)))
     = dispatched (trace w) @
       map (lower w) (commands (fst (split_lines [] (buf_in st @ concat (map utf8_decode_ignore cs)))))"
proof (induction cs arbitrary: w st)
  case Nil
  then show ?case by (simp add: split_lines_no_nl commands_def)
next
  case (Cons c cs)
  obtain w1 st1 where s: "service w st (Recv_data c) = (w1, st1)"
    by (cases "service w st (Recv_data c)")
  let ?t = "utf8_decode_ignore c"
  let ?T = "concat (map utf8_decode_ignore cs)"
  from service_split [OF Cons.prems, of w c] s
  have d: "dispatched (trace w1) = dispatched (trace w) @
             map (lower w) (commands (fst (split_lines [] (buf_in st @ ?t))))"
    and b: "buf_in st1 = snd (split_lines [] (buf_in st @ ?t))"
    and e: "env w1 = env w"
    by simp_all
  from service_buf_no_nl [OF Cons.prems, of w c] s have n: "10 \<notin> set (buf_in st1)"
    by simp
  have l: "lower w1 = lower w"
    by (rule ext) (simp add: lower_def e)
  have a: "split_lines [] (buf_in st1 @ ?T) = split_lines (buf_in st1) ?T"
    using split_lines_acc [OF n, of "[]" ?T] by simp
  have "split_lines [] (buf_in st @ ?t @ ?T) =
          (fst (split_lines [] (buf_in st @ ?t)) @ fst (split_lines (buf_in st1) ?T),
           snd (split_lines (buf_in st1) ?T))"
    using split_lines_append [of "[]" "buf_in st @ ?t" ?T] by (simp add: b)
  with Cons.IH [OF n, of w1] d l a s show ?case
    by simp
qed

text \<open>
  Where decoding the chunks one by one gives the text of the whole stream, the
  commands dispatched do not depend on where the reads fall. This includes a
  CR-LF pair cut by a read: the carriage return left behind is trimmed.
\<close>

lemma feed_read_boundaries:
  assumes "10 \<notin> set (buf_in st)"
    and "utf8_decode_ignore (concat cs) = concat (map utf8_decode_ignore cs)"
  shows "dispatched (trace (fst (feed w st cs)))
           = dispatched (trace (fst (service w st (Recv_data (concat cs)))))"
  using feed_split [OF assms(1), of w cs] service_split [OF assms(1), of w "concat cs"] assms(2)
  by simp


lemma decode_ascii_append:
  "\<forall>b\<in>set x. b < 0x80 \<Longrightarrow> utf8_decode_ignore (x @ y) = map unat x @ utf8_decode_ignore y"
  by (induction x) simp_all

lemma decode_ascii_concat:
  "\<forall>c\<in>set cs. \<forall>b\<in>set c. b < 0x80 \<Longrightarrow>
   utf8_decode_ignore (concat cs) = concat (map utf8_decode_ignore cs)"
proof (induction cs)
  case Nil
  show ?case by simp
next
  case (Cons c cs)
  then have c: "\<forall>b\<in>set c. b < 0x80"
    by simp
  from decode_ascii_append [OF c, of "concat cs"] decode_ascii_append [OF c, of "[]"] Cons
  show ?case by simp
qed

text \<open>In particular, a stream of ASCII bytes may be cut anywhere.\<close>

lemma feed_ascii:
  assumes "10 \<notin> set (buf_in st)" and "\<forall>c\<in>set cs. \<forall>b\<in>set c. b < 0x80"
  shows "dispatched (trace (fst (feed w st cs)))
           = dispatched (trace (fst (service w st (Recv_data (concat cs)))))"
  using feed_read_boundaries [OF assms(1) decode_ascii_concat [OF assms(2)]] .

end
